theory Spec2Isabelle
  imports Main "HOL-Library.Word" "HOL-Library.AList"
begin

unbundle bit_operations_syntax

section \<open>Bytes, errors and the two-dimensional byte buffer\<close>

type_synonym byte = "8 word"

text \<open>
  What can stop a call of the replayer before it returns: a \<^verbatim>\<open>std::runtime_error\<close>
  with its message, the \<^verbatim>\<open>std::length_error\<close> of \<^verbatim>\<open>std::vector::resize\<close>, and
  an access that C++ leaves undefined (null pointer, index outside a buffer, signed overflow).
  Allocation is taken to succeed: running out of memory (\<^verbatim>\<open>std::bad_alloc\<close>, the
  error of \<^verbatim>\<open>THAlloc\<close>) is not modelled.
\<close>

datatype error = Runtime_error string | Length_error | Undefined_behaviour

text \<open>
  \<^verbatim>\<open>THByteTensor\<close> is used as a contiguous two-dimensional byte buffer: two sizes and
  the bytes, the element \<open>(x, y)\<close> at offset \<open>x * size1 + y\<close>. The fast accessors do
  no bounds check; the model's callers check the offset before they use them.
\<close>

record tensor2d =
  size0 :: nat
  size1 :: nat
  storage :: "byte list"

definition THTensor_fastGet2d :: "tensor2d \<Rightarrow> nat \<Rightarrow> nat \<Rightarrow> byte" where
  "THTensor_fastGet2d t x y = storage t ! (x * size1 t + y)"

definition THTensor_fastSet2d :: "tensor2d \<Rightarrow> nat \<Rightarrow> nat \<Rightarrow> byte \<Rightarrow> tensor2d" where
  "THTensor_fastSet2d t x y v = t\<lparr>storage := (storage t)[x * size1 t + y := v]\<rparr>"

text \<open>
  A fresh or resized buffer holds whatever the allocator left there: \<open>junk\<close> gives the
  byte found at each offset that the old buffer did not have.
\<close>

definition THByteTensor_newWithSize2d :: "(nat \<Rightarrow> byte) \<Rightarrow> nat \<Rightarrow> nat \<Rightarrow> tensor2d" where
  "THByteTensor_newWithSize2d junk w h =
     \<lparr>size0 = w, size1 = h, storage = map junk [0..<w * h]\<rparr>"

definition THByteTensor_resizeAs :: "(nat \<Rightarrow> byte) \<Rightarrow> tensor2d \<Rightarrow> tensor2d \<Rightarrow> tensor2d" where
  "THByteTensor_resizeAs junk t src =
     \<lparr>size0 = size0 src, size1 = size1 src,
      storage = map (\<lambda>i. if i < length (storage t) then storage t ! i else junk i)
                    [0..<size0 src * size1 src]\<rparr>"

section \<open>The replay container\<close>

text \<open>
  \<^verbatim>\<open>Replayer\<close>: the map buffer (a pointer, possibly null), the frame pointers (each
  possibly null), the unit counts and the keyframe interval (\<^verbatim>\<open>uint32_t\<close>). The
  \<^verbatim>\<open>unordered_map\<close> is kept as an association list with one entry for each key. The
  writer walks the list from its head, so the list of a replay that is written stands for
  the order in which the container happens to iterate then. A read puts a new key at the
  end of the list and keeps the place of a key that is assigned again: this is the order
  in which the keys were first read, not the order in which the C++ container would
  iterate afterwards, which the standard leaves open. After a read only the mapping
  \<open>map_of (numUnits rp)\<close> and the set of entries are meant. The frame type \<open>'f\<close> is
  defined outside this file of the program.
\<close>

record 'f replayer =
  map_data :: "tensor2d option"
  frames :: "'f option list"
  numUnits :: "(int \<times> int) list"
  keyframe :: nat

section \<open>Packed map store\<close>

definition WALKABILITY_SHIFT :: nat where "WALKABILITY_SHIFT = 0"
definition BUILDABILITY_SHIFT :: nat where "BUILDABILITY_SHIFT = 1"
definition HEIGHT_SHIFT :: nat where "HEIGHT_SHIFT = 2"
definition START_LOC_SHIFT :: nat where "START_LOC_SHIFT = 5"

text \<open>Body of the inner loop of \<^verbatim>\<open>setMap\<close> (lines 135-142).\<close>

definition setMap_tile ::
  "nat \<Rightarrow> byte list \<Rightarrow> byte list \<Rightarrow> byte list \<Rightarrow> nat \<Rightarrow> nat \<Rightarrow> tensor2d \<Rightarrow> tensor2d" where
  "setMap_tile h walkability ground_height buildability x y t =
     (let v_w = walkability ! (x * h + y) AND 1;
          v_b = buildability ! (x * h + y) AND 1;
          v_g = ground_height ! (x * h + y) AND 7;
          packed = push_bit WALKABILITY_SHIFT v_w OR
                   push_bit BUILDABILITY_SHIFT v_b OR
                   push_bit HEIGHT_SHIFT v_g
      in THTensor_fastSet2d t x y packed)"

text \<open>The second loop of \<^verbatim>\<open>setMap\<close> (lines 145-150): it runs over
  \<^verbatim>\<open>start_loc_x\<close> and indexes \<^verbatim>\<open>start_loc_y\<close> with the same counter.\<close>

fun setMap_start :: "int list \<Rightarrow> int list \<Rightarrow> tensor2d \<Rightarrow> error + tensor2d" where
  "setMap_start [] ys t = Inr t"
| "setMap_start (x # xs) [] t = Inl Undefined_behaviour"
| "setMap_start (x # xs) (y # ys) t =
     (let off = x * int (size1 t) + y in
      if off < 0 \<or> int (length (storage t)) \<le> off then Inl Undefined_behaviour
      else setMap_start xs ys
             (t\<lparr>storage := (storage t)[nat off := storage t ! nat off OR push_bit START_LOC_SHIFT 1]\<rparr>))"

text \<open>
  \<^verbatim>\<open>Replayer::setMap\<close> on raw arrays (lines 125-151), for sizes that are not negative.
  The three arrays are read at every offset below \<open>w * h\<close>, computed in \<^verbatim>\<open>int\<close>; a
  shorter array or an offset beyond \<^verbatim>\<open>INT_MAX\<close> is undefined behaviour. The buffer
  the replayer held before is freed and replaced.
\<close>

definition setMap ::
  "(nat \<Rightarrow> byte) \<Rightarrow> nat \<Rightarrow> nat \<Rightarrow> byte list \<Rightarrow> byte list \<Rightarrow> byte list \<Rightarrow> int list \<Rightarrow> int list \<Rightarrow>
   'f replayer \<Rightarrow> error + 'f replayer" where
  "setMap junk w h walkability ground_height buildability start_loc_x start_loc_y self =
     (if length walkability < w * h \<or> length ground_height < w * h \<or>
         length buildability < w * h \<or> (2 :: int) ^ 31 < int (w * h)
      then Inl Undefined_behaviour
      else
        let t0 = THByteTensor_newWithSize2d junk w h;
            t1 = fold (\<lambda>x. fold (setMap_tile h walkability ground_height buildability x) [0..<h])
                   [0..<w] t0
        in case setMap_start start_loc_x start_loc_y t1 of
             Inl e \<Rightarrow> Inl e
           | Inr t2 \<Rightarrow> Inr (self\<lparr>map_data := Some t2\<rparr>))"

text \<open>Body of the inner loop of \<^verbatim>\<open>getMap\<close> (lines 165-173); the state is the three
  output buffers and the two start-location vectors.\<close>

definition getMap_tile ::
  "tensor2d \<Rightarrow> nat \<Rightarrow> nat \<Rightarrow> tensor2d \<times> tensor2d \<times> tensor2d \<times> int list \<times> int list \<Rightarrow>
   tensor2d \<times> tensor2d \<times> tensor2d \<times> int list \<times> int list" where
  "getMap_tile m x y st =
     (case st of (walkability, ground_height, buildability, start_loc_x, start_loc_y) \<Rightarrow>
        let v = THTensor_fastGet2d m x y;
            walkability = THTensor_fastSet2d walkability x y (drop_bit WALKABILITY_SHIFT v AND 1);
            buildability = THTensor_fastSet2d buildability x y (drop_bit BUILDABILITY_SHIFT v AND 1);
            ground_height = THTensor_fastSet2d ground_height x y (drop_bit HEIGHT_SHIFT v AND 7);
            is_start = (drop_bit START_LOC_SHIFT v AND 1 = 1)
        in if is_start
           then (walkability, ground_height, buildability, start_loc_x @ [int x], start_loc_y @ [int y])
           else (walkability, ground_height, buildability, start_loc_x, start_loc_y))"

text \<open>
  \<^verbatim>\<open>Replayer::getMap\<close> (lines 153-176). It takes the output buffers and vectors as the
  caller passes them and returns them as it leaves them; a null map is dereferenced.
\<close>

definition getMap ::
  "(nat \<Rightarrow> byte) \<Rightarrow> tensor2d \<Rightarrow> tensor2d \<Rightarrow> tensor2d \<Rightarrow> int list \<Rightarrow> int list \<Rightarrow> 'f replayer \<Rightarrow>
   error + (tensor2d \<times> tensor2d \<times> tensor2d \<times> int list \<times> int list)" where
  "getMap junk walkability ground_height buildability start_loc_x start_loc_y self =
     (case map_data self of
        None \<Rightarrow> Inl Undefined_behaviour
      | Some m \<Rightarrow>
          let w = size0 m; h = size1 m;
              walkability = THByteTensor_resizeAs junk walkability m;
              ground_height = THByteTensor_resizeAs junk ground_height m;
              buildability = THByteTensor_resizeAs junk buildability m;
              start_loc_x = [];
              start_loc_y = []
          in Inr (fold (\<lambda>x. fold (getMap_tile m x) [0..<h]) [0..<w]
                    (walkability, ground_height, buildability, start_loc_x, start_loc_y)))"

text \<open>The byte that the first loop of \<^verbatim>\<open>setMap\<close> stores for one tile.\<close>

definition pack_tile :: "byte \<Rightarrow> byte \<Rightarrow> byte \<Rightarrow> byte" where
  "pack_tile a b g =
     push_bit WALKABILITY_SHIFT (a AND 1) OR push_bit BUILDABILITY_SHIFT (b AND 1) OR
     push_bit HEIGHT_SHIFT (g AND 7)"

text \<open>The start-location bit of the tile at a coordinate pair, as \<^verbatim>\<open>getMap\<close> tests it.\<close>

definition is_start_tile :: "tensor2d \<Rightarrow> nat \<times> nat \<Rightarrow> bool" where
  "is_start_tile m p = (drop_bit START_LOC_SHIFT (THTensor_fastGet2d m (fst p) (snd p)) AND 1 = 1)"

text \<open>Increasing \<open>x\<close>, then increasing \<open>y\<close>.\<close>

definition lex_less :: "int \<times> int \<Rightarrow> int \<times> int \<Rightarrow> bool" where
  "lex_less p q = (fst p < fst q \<or> (fst p = fst q \<and> snd p < snd q))"

section \<open>Character streams\<close>

text \<open>
  The replay is written to a \<^verbatim>\<open>std::ostream\<close> and read from a \<^verbatim>\<open>std::istream\<close>. An
  output stream is the list of bytes written so far. An input stream is the bytes not
  yet read and the two state bits the extractions set; \<^verbatim>\<open>good()\<close> is neither bit set.
  The extraction of integers follows the C++11 rules of \<^verbatim>\<open>num_get\<close>: leading white
  space is skipped, a sign and decimal digits are consumed, a value out of range is
  clamped and a failed conversion stores zero, both with the fail bit; an extraction
  on a stream that is not good, or that meets the end while skipping white space, sets
  the fail bit and leaves the variable as it was.
\<close>

record istream =
  buf :: "byte list"
  eofbit :: bool
  failbit :: bool

definition good :: "istream \<Rightarrow> bool" where
  "good ins = (\<not> eofbit ins \<and> \<not> failbit ins)"

definition space :: byte where "space = 0x20"
definition minus_char :: byte where "minus_char = 0x2D"
definition plus_char :: byte where "plus_char = 0x2B"

definition isspace :: "byte \<Rightarrow> bool" where
  "isspace c = (c = 0x20 \<or> (0x09 \<le> c \<and> c \<le> 0x0D))"

definition isdigit :: "byte \<Rightarrow> bool" where
  "isdigit c = (0x30 \<le> c \<and> c \<le> 0x39)"

definition digit_char :: "nat \<Rightarrow> byte" where
  "digit_char d = of_nat (48 + d)"

definition digit_val :: "byte \<Rightarrow> int" where
  "digit_val c = uint c - 48"

text \<open>Decimal output of an unsigned and of a signed integer (\<^verbatim>\<open>out << n\<close>).\<close>

fun show_nat :: "nat \<Rightarrow> byte list" where
  "show_nat n = (if n < 10 then [digit_char n] else show_nat (n div 10) @ [digit_char (n mod 10)])"

declare show_nat.simps [simp del]

definition show_int :: "int \<Rightarrow> byte list" where
  "show_int n = (if n < 0 then minus_char # show_nat (nat (- n)) else show_nat (nat n))"

definition digits_value :: "byte list \<Rightarrow> int" where
  "digits_value ds = foldl (\<lambda>a c. a * 10 + digit_val c) 0 ds"

text \<open>The \<^verbatim>\<open>sentry\<close> of an input function; \<open>noskipws\<close> is set for the unformatted ones.\<close>

definition sentry :: "bool \<Rightarrow> istream \<Rightarrow> bool \<times> istream" where
  "sentry noskipws ins =
     (if \<not> good ins then (False, ins\<lparr>failbit := True\<rparr>)
      else if noskipws then (True, ins)
      else let r = dropWhile isspace (buf ins) in
        if r = [] then (False, ins\<lparr>buf := [], eofbit := True, failbit := True\<rparr>)
        else (True, ins\<lparr>buf := r\<rparr>))"

text \<open>
  \<^verbatim>\<open>in >> v\<close> for an integer variable of the given signedness and width that holds
  \<open>v\<close> before the extraction; the result is its value afterwards.
\<close>

definition extract_int :: "bool \<Rightarrow> nat \<Rightarrow> istream \<Rightarrow> int \<Rightarrow> int \<times> istream" where
  "extract_int is_signed bits ins v =
     (case sentry False ins of
        (False, ins') \<Rightarrow> (v, ins')
      | (True, ins') \<Rightarrow>
          let cs = buf ins';
              negative = (cs \<noteq> [] \<and> hd cs = minus_char);
              cs1 = (if cs \<noteq> [] \<and> (hd cs = minus_char \<or> hd cs = plus_char) then tl cs else cs);
              ds = takeWhile isdigit cs1;
              rest = dropWhile isdigit cs1;
              m = digits_value ds;
              ins'' = ins'\<lparr>buf := rest, eofbit := (rest = [])\<rparr>;
              lim = (if is_signed then (if negative then 2 ^ (bits - 1) else 2 ^ (bits - 1) - 1)
                     else 2 ^ bits - 1)
          in if ds = [] then (0, ins''\<lparr>failbit := True\<rparr>)
             else if lim < m
               then (if is_signed \<and> negative then - (2 ^ (bits - 1)) else lim, ins''\<lparr>failbit := True\<rparr>)
             else if negative then (if is_signed then - m else (2 ^ bits - m) mod 2 ^ bits, ins'')
             else (m, ins''))"

definition read_int32 :: "istream \<Rightarrow> int \<Rightarrow> int \<times> istream" where
  "read_int32 = extract_int True 32"

definition read_uint32 :: "istream \<Rightarrow> int \<Rightarrow> int \<times> istream" where
  "read_uint32 = extract_int False 32"

definition read_size_t :: "istream \<Rightarrow> int \<Rightarrow> int \<times> istream" where
  "read_size_t = extract_int False 64"

text \<open>\<^verbatim>\<open>in.ignore(1)\<close>.\<close>

definition ignore1 :: "istream \<Rightarrow> istream" where
  "ignore1 ins =
     (case sentry True ins of
        (False, ins') \<Rightarrow> ins'
      | (True, ins') \<Rightarrow>
          (case buf ins' of [] \<Rightarrow> ins'\<lparr>eofbit := True\<rparr> | c # cs \<Rightarrow> ins'\<lparr>buf := cs\<rparr>))"

text \<open>\<^verbatim>\<open>in.read(data, n)\<close>: the bytes read replace the front of the buffer \<open>data\<close>.\<close>

definition istream_read :: "istream \<Rightarrow> byte list \<Rightarrow> nat \<Rightarrow> byte list \<times> istream" where
  "istream_read ins data n =
     (case sentry True ins of
        (False, ins') \<Rightarrow> (data, ins')
      | (True, ins') \<Rightarrow>
          let got = take n (buf ins') in
          if length got < n
          then (got @ drop (length got) data, ins'\<lparr>buf := [], eofbit := True, failbit := True\<rparr>)
          else (got @ drop n data, ins'\<lparr>buf := drop n (buf ins')\<rparr>))"

text \<open>
  \<^verbatim>\<open>THAlloc(n)\<close>: \<open>n\<close> bytes of whatever the allocator left there. The allocation is
  taken to succeed.
\<close>

definition THAlloc :: "(nat \<Rightarrow> byte) \<Rightarrow> nat \<Rightarrow> byte list" where
  "THAlloc junk n = map junk [0..<n]"

section \<open>Frames\<close>

text \<open>
  \<^verbatim>\<open>Frame\<close>, \<^verbatim>\<open>FrameDiff\<close>, their stream operators and \<^verbatim>\<open>frame_diff\<close> /
  \<^verbatim>\<open>frame_undiff\<close> are defined in another file of the program; the codec takes them
  as given. A reader gets the stream and the object it reads into, and returns both.
\<close>

record ('f, 'd) frame_ops =
  new_Frame :: 'f
  write_Frame :: "'f \<Rightarrow> byte list"
  read_Frame :: "istream \<Rightarrow> 'f \<Rightarrow> 'f \<times> istream"
  new_FrameDiff :: 'd
  write_FrameDiff :: "'d \<Rightarrow> byte list"
  read_FrameDiff :: "istream \<Rightarrow> 'd \<Rightarrow> 'd \<times> istream"
  frame_diff :: "'f \<Rightarrow> 'f \<Rightarrow> 'd"
  frame_undiff :: "'d \<Rightarrow> 'f \<Rightarrow> 'f"

section \<open>Serialization: \<^verbatim>\<open>operator<<\<close>\<close>

text \<open>
  The frame loop of the writer (lines 30-33), over the positions still to write. A null
  frame pointer is dereferenced, and position 0 has no predecessor.
\<close>

fun write_frames :: "('f, 'd) frame_ops \<Rightarrow> nat \<Rightarrow> 'f option list \<Rightarrow> nat list \<Rightarrow> byte list \<Rightarrow> error + byte list" where
  "write_frames ops kf fs [] out = Inr out"
| "write_frames ops kf fs (i # is) out =
     (if i mod kf = 0 then
        (case fs ! i of
           None \<Rightarrow> Inl Undefined_behaviour
         | Some f \<Rightarrow> write_frames ops kf fs is (out @ write_Frame ops f @ [space]))
      else if i = 0 then Inl Undefined_behaviour
      else
        (case (fs ! i, fs ! (i - 1)) of
           (Some f, Some p) \<Rightarrow>
             write_frames ops kf fs is (out @ write_FrameDiff ops (frame_diff ops f p) @ [space])
         | _ \<Rightarrow> Inl Undefined_behaviour))"

text \<open>
  \<^verbatim>\<open>operator<<\<close> (lines 17-41), as the bytes it appends to a good output stream. The
  entries of \<^verbatim>\<open>numUnits\<close> are written in the order of the list, which stands for the
  order in which the container iterates when it is written.
\<close>

definition write_Replayer :: "('f, 'd) frame_ops \<Rightarrow> 'f replayer \<Rightarrow> error + byte list" where
  "write_Replayer ops rp =
     (case map_data rp of
        None \<Rightarrow> Inl Undefined_behaviour
      | Some m \<Rightarrow>
          let width = size0 m; height = size1 m; data = storage m in
          if length data < height * width then Inl Undefined_behaviour
          else
            let out = (if keyframe rp \<noteq> 0
                       then show_int 0 @ [space] @ show_nat (keyframe rp) @ [space] else []);
                out = out @ show_int (int width) @ [space] @ show_int (int height) @ [space];
                out = out @ take (height * width) data;
                kf = (if keyframe rp = 0 then 1 else keyframe rp);
                out = out @ show_nat (length (frames rp)) @ [space]
            in (case write_frames ops kf (frames rp) [0..<length (frames rp)] out of
                  Inl e \<Rightarrow> Inl e
                | Inr out \<Rightarrow>
                    let out = out @ show_nat (length (numUnits rp)) @ [space]
                    in Inr (fold (\<lambda>nu out. out @ show_int (fst nu) @ [space] @ show_int (snd nu) @ [space])
                              (numUnits rp) out)))"

section \<open>Deserialization: \<^verbatim>\<open>operator>>\<close>\<close>

text \<open>
  A call either returns or throws; either way the replayer and the stream are left as
  the call changed them.
\<close>

datatype 'a outcome = Returns 'a | Throws error 'a

text \<open>
  The local variables of \<^verbatim>\<open>operator>>\<close> are declared without an initial value. What
  they hold before the first extraction into them is given by a record of this type.
\<close>

record uninit =
  u_diffed :: int
  u_width :: int
  u_height :: int
  u_nFrames :: int
  u_s :: int
  u_key :: int
  u_val :: int

text \<open>Lines 49-59: the marker, the keyframe interval and the map size.\<close>

definition read_header :: "uninit \<Rightarrow> 'f replayer \<Rightarrow> istream \<Rightarrow> 'f replayer \<times> int \<times> int \<times> istream" where
  "read_header u rp ins =
     (let (diffed, ins) = read_int32 ins (u_diffed u) in
      if diffed = 0 then
        let (kf, ins) = read_uint32 ins (int (keyframe rp));
            (width, ins) = read_int32 ins (u_width u);
            (height, ins) = read_int32 ins (u_height u)
        in (rp\<lparr>keyframe := nat kf\<rparr>, width, height, ins)
      else
        let width = diffed;
            (height, ins) = read_int32 ins (u_height u)
        in (rp\<lparr>keyframe := 0\<rparr>, width, height, ins))"

text \<open>
  Modelled from the spec: \<^verbatim>\<open>Replayer::setRawMap\<close> is defined in the header, which is not
  among the sources. The spec's read protocol hands the buffer read to the map store as
  the packed grid, owned by the replay; the writer reads the first size as the width.
\<close>

definition setRawMap :: "int \<Rightarrow> int \<Rightarrow> byte list \<Rightarrow> 'f replayer \<Rightarrow> 'f replayer" where
  "setRawMap width height data rp =
     rp\<lparr>map_data := Some \<lparr>size0 = nat width, size1 = nat height, storage = data\<rparr>\<rparr>"

text \<open>\<^verbatim>\<open>std::vector::resize\<close> on the frame pointers: new slots are null.\<close>

definition vector_max_size :: int where
  "vector_max_size = 2 ^ 60 - 1"

definition resize :: "nat \<Rightarrow> 'a option list \<Rightarrow> 'a option list" where
  "resize n xs = (if n \<le> length xs then take n xs else xs @ replicate (n - length xs) None)"

text \<open>
  The frame loop of the reader (lines 69-85), over the positions still to read. The
  predecessor slot is read without a check: position 0 has none, and a null one is
  dereferenced by \<^verbatim>\<open>frame_undiff\<close>.
\<close>

fun read_frames_loop ::
  "('f, 'd) frame_ops \<Rightarrow> nat list \<Rightarrow> 'f replayer \<times> istream \<Rightarrow> ('f replayer \<times> istream) outcome" where
  "read_frames_loop ops [] st = Returns st"
| "read_frames_loop ops (i # is) (rp, ins) =
     (if keyframe rp = 0 then
        (let (f, ins) = read_Frame ops ins (new_Frame ops)
         in read_frames_loop ops is (rp\<lparr>frames := (frames rp)[i := Some f]\<rparr>, ins))
      else if i mod keyframe rp = 0 then
        (let (f, ins) = read_Frame ops ins (new_Frame ops)
         in read_frames_loop ops is (rp\<lparr>frames := (frames rp)[i := Some f]\<rparr>, ins))
      else
        (let (du, ins) = read_FrameDiff ops ins (new_FrameDiff ops) in
         if i = 0 then Throws Undefined_behaviour (rp, ins)
         else
           (case frames rp ! (i - 1) of
              None \<Rightarrow> Throws Undefined_behaviour (rp, ins)
            | Some p \<Rightarrow>
                read_frames_loop ops is
                  (rp\<lparr>frames := (frames rp)[i := Some (frame_undiff ops du p)]\<rparr>, ins))))"

text \<open>Lines 66-85: the frame count, the resize and the frame loop.\<close>

definition read_frames ::
  "('f, 'd) frame_ops \<Rightarrow> uninit \<Rightarrow> 'f replayer \<Rightarrow> istream \<Rightarrow> ('f replayer \<times> istream) outcome" where
  "read_frames ops u rp ins =
     (let (nFrames, ins) = read_size_t ins (u_nFrames u) in
      if vector_max_size < nFrames then Throws Length_error (rp, ins)
      else read_frames_loop ops [0..<nat nFrames]
             (rp\<lparr>frames := resize (nat nFrames) (frames rp)\<rparr>, ins))"

text \<open>
  The loop of lines 92-95; \<open>key\<close> and \<open>val\<close> live across its iterations.
  \<^verbatim>\<open>o.numUnits[key] = val\<close> assigns to a key that is present and inserts one that is not;
  the list keeps the entries in the order in which their keys were first read, which is
  not the order in which the container iterates afterwards.
\<close>

fun read_units_loop :: "nat \<Rightarrow> int \<Rightarrow> int \<Rightarrow> 'f replayer \<Rightarrow> istream \<Rightarrow> 'f replayer \<times> istream" where
  "read_units_loop 0 key val rp ins = (rp, ins)"
| "read_units_loop (Suc n) key val rp ins =
     (let (key, ins) = read_int32 ins key;
          (val, ins) = read_int32 ins val
      in read_units_loop n key val (rp\<lparr>numUnits := AList.update key val (numUnits rp)\<rparr>) ins)"

text \<open>Lines 87-95: the entry count, its check and the entries.\<close>

definition read_units :: "uninit \<Rightarrow> 'f replayer \<Rightarrow> istream \<Rightarrow> ('f replayer \<times> istream) outcome" where
  "read_units u rp ins =
     (let (s, ins) = read_int32 ins (u_s u) in
      if s < 0 then Throws (Runtime_error ''Corrupted replay: s < 0'') (rp, ins)
      else Returns (read_units_loop (nat s) (u_key u) (u_val u) rp ins))"

text \<open>
  \<^verbatim>\<open>operator>>\<close> (lines 43-98). The product \<^verbatim>\<open>height * width\<close> passed to
  \<^verbatim>\<open>read\<close> is computed in \<^verbatim>\<open>int\<close>.
\<close>

definition read_Replayer ::
  "('f, 'd) frame_ops \<Rightarrow> uninit \<Rightarrow> (nat \<Rightarrow> byte) \<Rightarrow> 'f replayer \<Rightarrow> istream \<Rightarrow>
   ('f replayer \<times> istream) outcome" where
  "read_Replayer ops u junk rp ins =
     (case read_header u rp ins of
        (rp, width, height, ins) \<Rightarrow>
          if height \<le> 0 \<or> width \<le> 0
          then Throws (Runtime_error ''Corrupted replay: invalid map size'') (rp, ins)
          else if 2 ^ 31 \<le> height * width then Throws Undefined_behaviour (rp, ins)
          else
            let data = THAlloc junk (nat (height * width));
                ins = ignore1 ins;
                (data, ins) = istream_read ins data (nat (height * width));
                rp = setRawMap width height data rp
            in (case read_frames ops u rp ins of
                  Throws e st \<Rightarrow> Throws e st
                | Returns (rp, ins) \<Rightarrow> read_units u rp ins))"

section \<open>Keyframe positions\<close>

definition effective_keyframe :: "nat \<Rightarrow> nat" where
  "effective_keyframe kf = (if kf = 0 then 1 else kf)"

text \<open>The role of a position of the frame sequence under a keyframe setting.\<close>

datatype role = Keyframe | DiffFrame

definition role_at :: "nat \<Rightarrow> nat \<Rightarrow> role" where
  "role_at kf i = (if i mod effective_keyframe kf = 0 then Keyframe else DiffFrame)"

text \<open>What the writer emits and what the reader does at one position, for each role.\<close>

definition emit_at :: "('f, 'd) frame_ops \<Rightarrow> nat \<Rightarrow> 'f list \<Rightarrow> nat \<Rightarrow> byte list" where
  "emit_at ops kf xs i =
     (case role_at kf i of
        Keyframe \<Rightarrow> write_Frame ops (xs ! i) @ [space]
      | DiffFrame \<Rightarrow> write_FrameDiff ops (frame_diff ops (xs ! i) (xs ! (i - 1))) @ [space])"

definition read_full_at ::
  "('f, 'd) frame_ops \<Rightarrow> nat \<Rightarrow> 'f replayer \<times> istream \<Rightarrow> 'f replayer \<times> istream" where
  "read_full_at ops i st =
     (case st of (rp, ins) \<Rightarrow>
        let (f, ins) = read_Frame ops ins (new_Frame ops)
        in (rp\<lparr>frames := (frames rp)[i := Some f]\<rparr>, ins))"

definition read_diff_at ::
  "('f, 'd) frame_ops \<Rightarrow> nat \<Rightarrow> 'f replayer \<times> istream \<Rightarrow> 'f replayer \<times> istream" where
  "read_diff_at ops i st =
     (case st of (rp, ins) \<Rightarrow>
        let (du, ins) = read_FrameDiff ops ins (new_FrameDiff ops)
        in (rp\<lparr>frames := (frames rp)[i := Some (frame_undiff ops du (the (frames rp ! (i - 1))))]\<rparr>, ins))"

definition read_at ::
  "('f, 'd) frame_ops \<Rightarrow> nat \<Rightarrow> nat \<Rightarrow> 'f replayer \<times> istream \<Rightarrow> 'f replayer \<times> istream" where
  "read_at ops kf i st = (case role_at kf i of Keyframe \<Rightarrow> read_full_at ops i st | DiffFrame \<Rightarrow> read_diff_at ops i st)"

text \<open>
  Frames that record how the reader made them: read in full from the byte with the given
  value, or rebuilt by \<^verbatim>\<open>frame_undiff\<close> from the delta with the given value and a
  predecessor. Each frame and each delta is one byte of the stream.
\<close>

datatype made = Full nat | Undiff nat made

definition trace_ops :: "(made, nat) frame_ops" where
  "trace_ops =
     \<lparr>new_Frame = Full 0,
      write_Frame = (\<lambda>f. []),
      read_Frame = (\<lambda>ins f. case buf ins of [] \<Rightarrow> (f, ins\<lparr>eofbit := True, failbit := True\<rparr>)
                                | c # cs \<Rightarrow> (Full (unat c), ins\<lparr>buf := cs\<rparr>)),
      new_FrameDiff = 0,
      write_FrameDiff = (\<lambda>d. []),
      read_FrameDiff = (\<lambda>ins d. case buf ins of [] \<Rightarrow> (d, ins\<lparr>eofbit := True, failbit := True\<rparr>)
                                    | c # cs \<Rightarrow> (unat c, ins\<lparr>buf := cs\<rparr>)),
      frame_diff = (\<lambda>f p. 0),
      frame_undiff = (\<lambda>d p. Undiff d p)\<rparr>"

section \<open>The layout of the byte stream\<close>

text \<open>
  The three token sections of the format, as the write protocol lists them: the header
  (marker and keyframe interval when the interval is not 0, then width and height), the
  frame count with one item per position, and the entry count with the entries.
\<close>

definition header_bytes :: "nat \<Rightarrow> nat \<Rightarrow> nat \<Rightarrow> byte list" where
  "header_bytes kf width height =
     (if kf \<noteq> 0 then show_int 0 @ [space] @ show_nat kf @ [space] else []) @
     show_int (int width) @ [space] @ show_int (int height) @ [space]"

definition frames_bytes :: "('f, 'd) frame_ops \<Rightarrow> nat \<Rightarrow> 'f list \<Rightarrow> byte list" where
  "frames_bytes ops kf xs =
     show_nat (length xs) @ [space] @ concat (map (emit_at ops kf xs) [0..<length xs])"

definition pair_bytes :: "int \<times> int \<Rightarrow> byte list" where
  "pair_bytes nu = show_int (fst nu) @ [space] @ show_int (snd nu) @ [space]"

definition units_bytes :: "(int \<times> int) list \<Rightarrow> byte list" where
  "units_bytes nus = show_nat (length nus) @ [space] @ concat (map pair_bytes nus)"

text \<open>Some contents of the uninitialised locals, for the examples.\<close>

definition some_uninit :: uninit where
  "some_uninit = \<lparr>u_diffed = 77, u_width = 77, u_height = 77, u_nFrames = 77,
                  u_s = 77, u_key = 77, u_val = 77\<rparr>"

text \<open>
  A stand-in for the frame type in the examples: a frame is one 32-bit integer written in
  decimal, a delta is the difference of two frames.
\<close>

definition int_ops :: "(int, int) frame_ops" where
  "int_ops =
     \<lparr>new_Frame = 0, write_Frame = show_int, read_Frame = read_int32,
      new_FrameDiff = 0, write_FrameDiff = show_int, read_FrameDiff = read_int32,
      frame_diff = (\<lambda>f p. f - p), frame_undiff = (\<lambda>d p. d + p)\<rparr>"

section \<open>Streams that have ended or failed\<close>




text \<open>
  The same stream with more input behind what it holds, the outcome of a call with its
  stream changed, and two properties of a reading function: once the stream is not good
  it stays so, and a call that leaves the stream good has not looked beyond what it
  consumed, so that more input behind it changes nothing but what is left.
\<close>

definition more_input :: "byte list \<Rightarrow> istream \<Rightarrow> istream" where
  "more_input x ins = ins\<lparr>buf := buf ins @ x\<rparr>"




section \<open>Properties of the packed map store\<close>


lemma fold_nested_product:
  "fold (\<lambda>x. fold (f x) [0..<h]) xs s = fold (\<lambda>(x, y). f x y) (List.product xs [0..<h]) s"
  by (induction xs arbitrary: s) (simp_all add: fold_map comp_def)

lemma offset_inj:
  fixes h :: nat
  assumes "y < h" "y' < h" "x * h + y = x' * h + y'"
  shows "x = x' \<and> y = y'"
proof -
  have "(x * h + y) div h = x" using assms(1) by simp
  moreover have "(x' * h + y') div h = x'" using assms(2) by simp
  ultimately have "x = x'" using assms(3) by simp
  then show ?thesis using assms(3) by simp
qed

lemma offset_bound:
  fixes h :: nat
  assumes "x < w" "y < h"
  shows "x * h + y < w * h"
proof -
  have "x * h + y < x * h + h" using assms by simp
  also have "\<dots> = (Suc x) * h" by simp
  also have "\<dots> \<le> w * h" using assms by (intro mult_le_mono1) simp
  finally show ?thesis .
qed

lemma setMap_tile_alt:
  "setMap_tile h a g b x y t =
     THTensor_fastSet2d t x y (pack_tile (a ! (x * h + y)) (b ! (x * h + y)) (g ! (x * h + y)))"
  by (simp add: setMap_tile_def pack_tile_def Let_def)

lemma setMap_start_effect:
  "setMap_start sx sy t = Inr t' \<Longrightarrow>
     size0 t' = size0 t \<and> size1 t' = size1 t \<and> length (storage t') = length (storage t) \<and>
     (\<forall>i < length (storage t). storage t' ! i =
        (if \<exists>(a, b) \<in> set (zip sx sy). a * int (size1 t) + b = int i
         then storage t ! i OR push_bit START_LOC_SHIFT 1 else storage t ! i))"
proof (induction sx sy t arbitrary: t' rule: setMap_start.induct)
  case (1 ys t)
  then show ?case by simp
next
  case (2 x xs t)
  then show ?case by simp
next
  case (3 x xs y ys t)
  let ?off = "x * int (size1 t) + y"
  let ?u = "t\<lparr>storage := (storage t)[nat ?off := storage t ! nat ?off OR push_bit START_LOC_SHIFT 1]\<rparr>"
  from "3.prems" have ok: "0 \<le> ?off" "?off < int (length (storage t))"
    and rec: "setMap_start xs ys ?u = Inr t'"
    by (auto simp: Let_def split: if_splits)
  from "3.IH" [OF refl _ rec] ok
  have ih: "size0 t' = size0 t" "size1 t' = size1 t" "length (storage t') = length (storage t)"
    "\<And>i. i < length (storage t) \<Longrightarrow> storage t' ! i =
        (if \<exists>(a, b) \<in> set (zip xs ys). a * int (size1 t) + b = int i
         then storage ?u ! i OR push_bit START_LOC_SHIFT 1 else storage ?u ! i)"
    by auto
  show ?case
  proof (intro conjI allI impI)
    fix i assume i: "i < length (storage t)"
    show "storage t' ! i =
        (if \<exists>(a, b) \<in> set (zip (x # xs) (y # ys)). a * int (size1 t) + b = int i
         then storage t ! i OR push_bit START_LOC_SHIFT 1 else storage t ! i)"
    proof (cases "nat ?off = i")
      case True
      then have "?off = int i" using ok by simp
      then show ?thesis using ih(4) [OF i] i True by (auto simp: or.assoc)
    next
      case False
      then have "?off \<noteq> int i" by auto
      then show ?thesis using ih(4) [OF i] i False by auto
    qed
  qed (simp_all add: ih)
qed

lemma getMap_tile_alt:
  "getMap_tile m x y (wk, gh, bd, sx, sy) =
     (THTensor_fastSet2d wk x y (drop_bit WALKABILITY_SHIFT (THTensor_fastGet2d m x y) AND 1),
      THTensor_fastSet2d gh x y (drop_bit HEIGHT_SHIFT (THTensor_fastGet2d m x y) AND 7),
      THTensor_fastSet2d bd x y (drop_bit BUILDABILITY_SHIFT (THTensor_fastGet2d m x y) AND 1),
      sx @ (if drop_bit START_LOC_SHIFT (THTensor_fastGet2d m x y) AND 1 = 1 then [int x] else []),
      sy @ (if drop_bit START_LOC_SHIFT (THTensor_fastGet2d m x y) AND 1 = 1 then [int y] else []))"
  by (simp add: getMap_tile_def Let_def)

lemma fastSet2d_simps:
  "size0 (THTensor_fastSet2d u x y v) = size0 u"
  "size1 (THTensor_fastSet2d u x y v) = size1 u"
  "length (storage (THTensor_fastSet2d u x y v)) = length (storage u)"
  "storage (THTensor_fastSet2d u x y v) ! i =
     (if i = x * size1 u + y \<and> i < length (storage u) then v else storage u ! i)"
  by (auto simp: THTensor_fastSet2d_def nth_list_update list_update_beyond)

lemma fastSet_fold_effect:
  assumes "size1 t = h" "\<forall>(x, y) \<in> set ps. y < h"
  shows "size0 (fold (\<lambda>(x, y) t. THTensor_fastSet2d t x y (f x y)) ps t) = size0 t \<and>
         size1 (fold (\<lambda>(x, y) t. THTensor_fastSet2d t x y (f x y)) ps t) = h \<and>
         length (storage (fold (\<lambda>(x, y) t. THTensor_fastSet2d t x y (f x y)) ps t)) = length (storage t) \<and>
         (\<forall>x y. y < h \<longrightarrow> x * h + y < length (storage t) \<longrightarrow>
            storage (fold (\<lambda>(x, y) t. THTensor_fastSet2d t x y (f x y)) ps t) ! (x * h + y) =
              (if (x, y) \<in> set ps then f x y else storage t ! (x * h + y)))"
  using assms(2)
proof (induction ps rule: rev_induct)
  case Nil
  then show ?case using assms(1) by simp
next
  case (snoc p ps)
  obtain px py where p: "p = (px, py)" by (cases p)
  let ?u = "fold (\<lambda>(x, y) t. THTensor_fastSet2d t x y (f x y)) ps t"
  have ih: "size0 ?u = size0 t" "size1 ?u = h" "length (storage ?u) = length (storage t)"
    "\<And>x y. y < h \<Longrightarrow> x * h + y < length (storage t) \<Longrightarrow>
        storage ?u ! (x * h + y) = (if (x, y) \<in> set ps then f x y else storage t ! (x * h + y))"
    using snoc by auto
  have py: "py < h" using snoc.prems p by simp
  have step: "fold (\<lambda>(x, y) t. THTensor_fastSet2d t x y (f x y)) (ps @ [p]) t
      = THTensor_fastSet2d ?u px py (f px py)"
    by (simp add: p)
  show ?case
    unfolding step
  proof (intro conjI allI impI)
    fix x y assume y: "y < h" and b: "x * h + y < length (storage t)"
    show "storage (THTensor_fastSet2d ?u px py (f px py)) ! (x * h + y) =
       (if (x, y) \<in> set (ps @ [p]) then f x y else storage t ! (x * h + y))"
    proof (cases "(x, y) = (px, py)")
      case True
      then show ?thesis using b ih(2,3) by (simp add: fastSet2d_simps p)
    next
      case False
      then have "px * h + py \<noteq> x * h + y" using offset_inj [OF py y] by blast
      then show ?thesis using False ih(4) [OF y b] by (auto simp: fastSet2d_simps p ih(2))
    qed
  qed (simp_all add: fastSet2d_simps ih)
qed

lemma getMap_loops:
  "fold (\<lambda>(x, y). getMap_tile m x y) ps (wk, gh, bd, sx, sy) =
     (fold (\<lambda>(x, y) t. THTensor_fastSet2d t x y (drop_bit WALKABILITY_SHIFT (THTensor_fastGet2d m x y) AND 1)) ps wk,
      fold (\<lambda>(x, y) t. THTensor_fastSet2d t x y (drop_bit HEIGHT_SHIFT (THTensor_fastGet2d m x y) AND 7)) ps gh,
      fold (\<lambda>(x, y) t. THTensor_fastSet2d t x y (drop_bit BUILDABILITY_SHIFT (THTensor_fastGet2d m x y) AND 1)) ps bd,
      sx @ map (int \<circ> fst) (filter (is_start_tile m) ps),
      sy @ map (int \<circ> snd) (filter (is_start_tile m) ps))"
proof (induction ps arbitrary: wk gh bd sx sy)
  case Nil
  then show ?case by simp
next
  case (Cons p ps)
  obtain px py where p: "p = (px, py)" by (cases p)
  show ?case
    by (simp add: p getMap_tile_alt Cons.IH is_start_tile_def)
qed

lemma and_1_take_bit: "(x :: byte) AND 1 = take_bit 1 x"
  by (simp add: take_bit_eq_mask)

lemma and_7_take_bit: "(x :: byte) AND 7 = take_bit 3 x"
  by (simp add: take_bit_eq_mask mask_eq_exp_minus_1)

lemmas bit_unfold = bit_or_iff bit_and_iff bit_push_bit_iff bit_drop_bit_eq bit_take_bit_iff bit_1_iff
  possible_bit_word o_apply

lemma unpack_bits:
  fixes a b g :: byte
  shows "drop_bit WALKABILITY_SHIFT (pack_tile a b g) AND 1 = a AND 1"
    "drop_bit BUILDABILITY_SHIFT (pack_tile a b g) AND 1 = b AND 1"
    "drop_bit HEIGHT_SHIFT (pack_tile a b g) AND 7 = g AND 7"
    "drop_bit START_LOC_SHIFT (pack_tile a b g) AND 1 = 0"
    "drop_bit WALKABILITY_SHIFT (pack_tile a b g OR push_bit START_LOC_SHIFT 1) AND 1 = a AND 1"
    "drop_bit BUILDABILITY_SHIFT (pack_tile a b g OR push_bit START_LOC_SHIFT 1) AND 1 = b AND 1"
    "drop_bit HEIGHT_SHIFT (pack_tile a b g OR push_bit START_LOC_SHIFT 1) AND 7 = g AND 7"
    "drop_bit START_LOC_SHIFT (pack_tile a b g OR push_bit START_LOC_SHIFT 1) AND 1 = 1"
  unfolding pack_tile_def WALKABILITY_SHIFT_def BUILDABILITY_SHIFT_def HEIGHT_SHIFT_def START_LOC_SHIFT_def
    and_1_take_bit and_7_take_bit
         apply (rule bit_eqI, simp only: bit_unfold, simp, linarith?)
        apply (rule bit_eqI, simp only: bit_unfold, simp, linarith?)
       apply (rule bit_eqI, simp only: bit_unfold, simp, linarith?)
      apply (rule bit_eqI, simp only: bit_unfold bit_0_eq, simp, linarith?)
     apply (rule bit_eqI, simp only: bit_unfold, simp, linarith?)
    apply (rule bit_eqI, simp only: bit_unfold, simp, linarith?)
   apply (rule bit_eqI, simp only: bit_unfold, simp, linarith?)
  apply (rule bit_eqI, simp only: bit_unfold, simp, linarith?)
  done

lemma setMap_result:
  assumes "setMap junk w h wk gh bd sx sy self = Inr self'"
  obtains t where "map_data self' = Some t" "size0 t = w" "size1 t = h" "length (storage t) = w * h"
    "\<And>x y. x < w \<Longrightarrow> y < h \<Longrightarrow>
       THTensor_fastGet2d t x y =
         (if \<exists>(a, b) \<in> set (zip sx sy). a * int h + b = int (x * h + y)
          then pack_tile (wk ! (x * h + y)) (bd ! (x * h + y)) (gh ! (x * h + y)) OR push_bit START_LOC_SHIFT 1
          else pack_tile (wk ! (x * h + y)) (bd ! (x * h + y)) (gh ! (x * h + y)))"
proof -
  let ?t0 = "THByteTensor_newWithSize2d junk w h"
  let ?t1 = "fold (\<lambda>x. fold (setMap_tile h wk gh bd x) [0..<h]) [0..<w] ?t0"
  from assms obtain t2 where t2: "setMap_start sx sy ?t1 = Inr t2" and self': "self' = self\<lparr>map_data := Some t2\<rparr>"
    by (auto simp: setMap_def Let_def split: if_splits sum.splits)
  have t1_eq: "?t1 = fold (\<lambda>(x, y) t. THTensor_fastSet2d t x y
                    (pack_tile (wk ! (x * h + y)) (bd ! (x * h + y)) (gh ! (x * h + y))))
                  (List.product [0..<w] [0..<h]) ?t0"
    by (simp add: fold_nested_product setMap_tile_alt [abs_def])
  have t0: "size1 ?t0 = h" "size0 ?t0 = w" "length (storage ?t0) = w * h"
    by (simp_all add: THByteTensor_newWithSize2d_def)
  have ps: "\<forall>(x, y) \<in> set (List.product [0..<w] [0..<h]). y < h" by auto
  note eff = fastSet_fold_effect [OF t0(1) ps,
      of "\<lambda>x y. pack_tile (wk ! (x * h + y)) (bd ! (x * h + y)) (gh ! (x * h + y))", folded t1_eq]
  have t1: "size0 ?t1 = w" "size1 ?t1 = h" "length (storage ?t1) = w * h"
    using eff t0 by simp_all
  have t1_nth: "storage ?t1 ! (x * h + y) = pack_tile (wk ! (x * h + y)) (bd ! (x * h + y)) (gh ! (x * h + y))"
    if "x < w" "y < h" for x y
    using eff that offset_bound [OF that] t0 by simp
  note st = setMap_start_effect [OF t2]
  show thesis
  proof (rule that [of t2])
    show "map_data self' = Some t2" by (simp add: self')
    show "size0 t2 = w" "size1 t2 = h" "length (storage t2) = w * h" using st t1 by simp_all
    fix x y assume xy: "x < w" "y < h"
    have "x * h + y < length (storage ?t1)" using offset_bound [OF xy] t1 by simp
    then show "THTensor_fastGet2d t2 x y =
         (if \<exists>(a, b) \<in> set (zip sx sy). a * int h + b = int (x * h + y)
          then pack_tile (wk ! (x * h + y)) (bd ! (x * h + y)) (gh ! (x * h + y)) OR push_bit START_LOC_SHIFT 1
          else pack_tile (wk ! (x * h + y)) (bd ! (x * h + y)) (gh ! (x * h + y)))"
      using st t1 t1_nth [OF xy] by (simp add: THTensor_fastGet2d_def)
  qed
qed

lemma getMap_result:
  assumes "getMap junk wk0 gh0 bd0 sx0 sy0 self = Inr (wk, gh, bd, sx, sy)" "map_data self = Some m"
  shows "sx = map (int \<circ> fst) (filter (is_start_tile m) (List.product [0..<size0 m] [0..<size1 m]))"
    "sy = map (int \<circ> snd) (filter (is_start_tile m) (List.product [0..<size0 m] [0..<size1 m]))"
    "\<And>x y. x < size0 m \<Longrightarrow> y < size1 m \<Longrightarrow>
       THTensor_fastGet2d wk x y = drop_bit WALKABILITY_SHIFT (THTensor_fastGet2d m x y) AND 1 \<and>
       THTensor_fastGet2d gh x y = drop_bit HEIGHT_SHIFT (THTensor_fastGet2d m x y) AND 7 \<and>
       THTensor_fastGet2d bd x y = drop_bit BUILDABILITY_SHIFT (THTensor_fastGet2d m x y) AND 1"
proof -
  let ?ps = "List.product [0..<size0 m] [0..<size1 m]"
  let ?r = "\<lambda>t. THByteTensor_resizeAs junk t m"
  have eq: "(wk, gh, bd, sx, sy) = fold (\<lambda>(x, y). getMap_tile m x y) ?ps (?r wk0, ?r gh0, ?r bd0, [], [])"
    using assms by (simp add: getMap_def Let_def fold_nested_product)
  note r = eq [unfolded getMap_loops]
  show "sx = map (int \<circ> fst) (filter (is_start_tile m) ?ps)"
    "sy = map (int \<circ> snd) (filter (is_start_tile m) ?ps)"
    using r by simp_all
  have rs: "size1 (?r t) = size1 m" "length (storage (?r t)) = size0 m * size1 m" for t
    by (simp_all add: THByteTensor_resizeAs_def)
  have ps: "\<forall>(x, y) \<in> set ?ps. y < size1 m" by auto
  fix x y assume xy: "x < size0 m" "y < size1 m"
  have b: "x * size1 m + y < size0 m * size1 m" using offset_bound [OF xy] .
  have mem: "(x, y) \<in> set ?ps" using xy by simp
  have get: "THTensor_fastGet2d (fold (\<lambda>(x, y) t. THTensor_fastSet2d t x y (f x y)) ?ps (?r t)) x y = f x y" for f t
    using fastSet_fold_effect [OF rs(1) [of t] ps, of f] b mem xy rs(2) [of t]
    by (simp add: THTensor_fastGet2d_def)
  show "THTensor_fastGet2d wk x y = drop_bit WALKABILITY_SHIFT (THTensor_fastGet2d m x y) AND 1 \<and>
       THTensor_fastGet2d gh x y = drop_bit HEIGHT_SHIFT (THTensor_fastGet2d m x y) AND 7 \<and>
       THTensor_fastGet2d bd x y = drop_bit BUILDABILITY_SHIFT (THTensor_fastGet2d m x y) AND 1"
    using r get by simp
qed

lemma and_1_id: "(v :: byte) \<le> 1 \<Longrightarrow> v AND 1 = v"
proof -
  assume "v \<le> 1"
  then have "unat v \<le> 1" by (simp add: word_le_nat_alt)
  then have "unat v = 0 \<or> unat v = 1" by auto
  then have "v = 0 \<or> v = 1" by (metis unat_0 unat_1 word_unat_eq_iff)
  then show ?thesis by auto
qed

lemma and_7_id: "(v :: byte) \<le> 7 \<Longrightarrow> v AND 7 = v"
proof -
  assume "v \<le> 7"
  then have "v < 2 ^ 3" by (simp add: word_le_nat_alt word_less_nat_alt)
  then have "v AND mask 3 = v" by (rule less_mask_eq)
  then show ?thesis by (simp add: mask_eq_exp_minus_1)
qed

lemma int_offset_inj:
  fixes h x y :: nat and a b :: int
  assumes "0 \<le> a" "0 \<le> b" "b < int h" "y < h" "a * int h + b = int (x * h + y)"
  shows "a = int x \<and> b = int y"
proof -
  have "int (nat a * h + nat b) = int (x * h + y)" using assms by simp
  then have "nat a * h + nat b = x * h + y" by (simp only: int_int_eq)
  moreover have "nat b < h" using assms by simp
  ultimately have "nat a = x \<and> nat b = y" using offset_inj [of "nat b" h y "nat a" x] assms(4) by blast
  then show ?thesis using assms by auto
qed

lemma zip_start_set:
  "set (zip (map (int \<circ> fst) (filter P ps)) (map (int \<circ> snd) (filter P ps))) =
     (\<lambda>(a, b). (int a, int b)) ` {p \<in> set ps. P p}"
  by (induction ps) auto

text \<open>
  Claim C3. A map built by \<^verbatim>\<open>setMap\<close> and decoded by \<^verbatim>\<open>getMap\<close> gives back, at every
  tile \<open>(x, y)\<close> of the grid, the walkability and buildability masked with 1, the ground
  height masked with 7, and the start-location flag; so a tile with walkability and
  buildability in \<open>{0, 1}\<close> and ground height in \<open>0..5\<close> comes back unchanged, and a
  ground height above 5 is stored and decoded as \<open>value AND 7\<close>. The start locations
  passed to \<^verbatim>\<open>setMap\<close> are coordinates of the grid.
\<close>

theorem setMap_getMap_tile_roundtrip:
  assumes set: "setMap junk w h walkability ground_height buildability start_loc_x start_loc_y self = Inr self'"
    and locs: "\<forall>(a, b) \<in> set (zip start_loc_x start_loc_y). 0 \<le> a \<and> a < int w \<and> 0 \<le> b \<and> b < int h"
    and get: "getMap junk' wk0 gh0 bd0 sx0 sy0 self' = Inr (wk, gh, bd, sx, sy)"
    and xy: "x < w" "y < h"
  shows "THTensor_fastGet2d wk x y = walkability ! (x * h + y) AND 1 \<and>
         THTensor_fastGet2d bd x y = buildability ! (x * h + y) AND 1 \<and>
         THTensor_fastGet2d gh x y = ground_height ! (x * h + y) AND 7 \<and>
         ((int x, int y) \<in> set (zip sx sy) \<longleftrightarrow> (int x, int y) \<in> set (zip start_loc_x start_loc_y)) \<and>
         (walkability ! (x * h + y) \<le> 1 \<longrightarrow> THTensor_fastGet2d wk x y = walkability ! (x * h + y)) \<and>
         (buildability ! (x * h + y) \<le> 1 \<longrightarrow> THTensor_fastGet2d bd x y = buildability ! (x * h + y)) \<and>
         (ground_height ! (x * h + y) \<le> 5 \<longrightarrow> THTensor_fastGet2d gh x y = ground_height ! (x * h + y)) \<and>
         (\<exists>m. map_data self' = Some m \<and>
              drop_bit HEIGHT_SHIFT (THTensor_fastGet2d m x y) AND 7 = ground_height ! (x * h + y) AND 7)"
proof -
  from setMap_result [OF set] obtain m where m: "map_data self' = Some m" "size0 m = w" "size1 m = h"
    and tile: "\<And>x y. x < w \<Longrightarrow> y < h \<Longrightarrow>
       THTensor_fastGet2d m x y =
         (if \<exists>(a, b) \<in> set (zip start_loc_x start_loc_y). a * int h + b = int (x * h + y)
          then pack_tile (walkability ! (x * h + y)) (buildability ! (x * h + y)) (ground_height ! (x * h + y))
                 OR push_bit START_LOC_SHIFT 1
          else pack_tile (walkability ! (x * h + y)) (buildability ! (x * h + y)) (ground_height ! (x * h + y)))"
    by blast
  note g = getMap_result [OF get m(1), unfolded m(2,3)]
  have flag: "(\<exists>(a, b) \<in> set (zip start_loc_x start_loc_y). a * int h + b = int (x * h + y))
      \<longleftrightarrow> (int x, int y) \<in> set (zip start_loc_x start_loc_y)"
  proof
    assume "\<exists>(a, b) \<in> set (zip start_loc_x start_loc_y). a * int h + b = int (x * h + y)"
    then obtain a b where ab: "(a, b) \<in> set (zip start_loc_x start_loc_y)" "a * int h + b = int (x * h + y)"
      by auto
    with locs have "0 \<le> a" "0 \<le> b" "b < int h" by auto
    from int_offset_inj [OF this xy(2) ab(2)] ab(1)
    show "(int x, int y) \<in> set (zip start_loc_x start_loc_y)" by simp
  next
    assume "(int x, int y) \<in> set (zip start_loc_x start_loc_y)"
    then show "\<exists>(a, b) \<in> set (zip start_loc_x start_loc_y). a * int h + b = int (x * h + y)"
      by (intro bexI [of _ "(int x, int y)"]) simp_all
  qed
  let ?P = "pack_tile (walkability ! (x * h + y)) (buildability ! (x * h + y)) (ground_height ! (x * h + y))"
  have v: "drop_bit WALKABILITY_SHIFT (THTensor_fastGet2d m x y) AND 1 = walkability ! (x * h + y) AND 1 \<and>
    drop_bit BUILDABILITY_SHIFT (THTensor_fastGet2d m x y) AND 1 = buildability ! (x * h + y) AND 1 \<and>
    drop_bit HEIGHT_SHIFT (THTensor_fastGet2d m x y) AND 7 = ground_height ! (x * h + y) AND 7 \<and>
    (is_start_tile m (x, y) \<longleftrightarrow> (int x, int y) \<in> set (zip start_loc_x start_loc_y))"
  proof (cases "(int x, int y) \<in> set (zip start_loc_x start_loc_y)")
    case True
    then have "THTensor_fastGet2d m x y = ?P OR push_bit START_LOC_SHIFT 1"
      using tile [OF xy] flag by simp
    then show ?thesis
      using True by (simp only: unpack_bits is_start_tile_def fst_conv snd_conv) simp
  next
    case False
    then have "THTensor_fastGet2d m x y = ?P"
      using tile [OF xy] flag by simp
    then show ?thesis
      using False by (simp only: unpack_bits is_start_tile_def fst_conv snd_conv) simp
  qed
  have w1: "THTensor_fastGet2d wk x y = walkability ! (x * h + y) AND 1"
    and b1: "THTensor_fastGet2d bd x y = buildability ! (x * h + y) AND 1"
    and g1: "THTensor_fastGet2d gh x y = ground_height ! (x * h + y) AND 7"
    using g(3) [OF xy] v by simp_all
  have "(int x, int y) \<in> set (zip sx sy) \<longleftrightarrow> is_start_tile m (x, y)"
    unfolding g(1,2) zip_start_set using xy by (auto simp: image_iff)
  then have s1: "(int x, int y) \<in> set (zip sx sy) \<longleftrightarrow> (int x, int y) \<in> set (zip start_loc_x start_loc_y)"
    using v by simp
  have g5: "ground_height ! (x * h + y) \<le> 5 \<Longrightarrow> ground_height ! (x * h + y) \<le> 7"
    by (simp add: word_le_nat_alt)
  show ?thesis
    using w1 b1 g1 s1 m(1) v by (auto simp: and_1_id and_7_id g5)
qed

theorem setMap_getMap_tile_roundtrip_witness:
  "setMap (\<lambda>_. 0) 1 2 [1, 0] [6, 3] [0, 1] [0] [1] (\<lparr>map_data = None, frames = ([] :: unit option list), numUnits = [], keyframe = 0\<rparr>) = Inr (\<lparr>map_data = Some \<lparr>size0 = 1, size1 = 2, storage = [25, 46]\<rparr>, frames = ([] :: unit option list), numUnits = [], keyframe = 0\<rparr>) \<and>
   getMap (\<lambda>_. 0) (\<lparr>size0 = 0, size1 = 0, storage = []\<rparr>) (\<lparr>size0 = 0, size1 = 0, storage = []\<rparr>) (\<lparr>size0 = 0, size1 = 0, storage = []\<rparr>) [] [] (\<lparr>map_data = Some \<lparr>size0 = 1, size1 = 2, storage = [25, 46]\<rparr>, frames = ([] :: unit option list), numUnits = [], keyframe = 0\<rparr>) = Inr (\<lparr>size0 = 1, size1 = 2, storage = [1, 0]\<rparr>, \<lparr>size0 = 1, size1 = 2, storage = [6, 3]\<rparr>, \<lparr>size0 = 1, size1 = 2, storage = [0, 1]\<rparr>, [0], [1]) \<and>
   THTensor_fastGet2d (\<lparr>size0 = 1, size1 = 2, storage = [1, 0]\<rparr>) 0 1 = 0 \<and>
   THTensor_fastGet2d (\<lparr>size0 = 1, size1 = 2, storage = [0, 1]\<rparr>) 0 1 = 1 \<and>
   THTensor_fastGet2d (\<lparr>size0 = 1, size1 = 2, storage = [6, 3]\<rparr>) 0 1 = 3 \<and>
   (int 0, int 1) \<in> set (zip [0] [1 :: int]) \<and>
   THTensor_fastGet2d (\<lparr>size0 = 1, size1 = 2, storage = [1, 0]\<rparr>) 0 0 = 1 \<and>
   THTensor_fastGet2d (\<lparr>size0 = 1, size1 = 2, storage = [0, 1]\<rparr>) 0 0 = 0 \<and>
   THTensor_fastGet2d (\<lparr>size0 = 1, size1 = 2, storage = [6, 3]\<rparr>) 0 0 = 6 AND 7 \<and>
   (int 0, int 0) \<notin> set (zip [0] [1 :: int])"
proof -
  have s: "setMap (\<lambda>_. 0) 1 2 [1, 0] [6, 3] [0, 1] [0] [1] (\<lparr>map_data = None, frames = ([] :: unit option list), numUnits = [], keyframe = 0\<rparr>) = Inr (\<lparr>map_data = Some \<lparr>size0 = 1, size1 = 2, storage = [25, 46]\<rparr>, frames = ([] :: unit option list), numUnits = [], keyframe = 0\<rparr>)"
    by code_simp
  have l: "\<forall>(a, b) \<in> set (zip [0] [1 :: int]). 0 \<le> a \<and> a < int 1 \<and> 0 \<le> b \<and> b < int 2"
    by simp
  have g: "getMap (\<lambda>_. 0) (\<lparr>size0 = 0, size1 = 0, storage = []\<rparr>) (\<lparr>size0 = 0, size1 = 0, storage = []\<rparr>) (\<lparr>size0 = 0, size1 = 0, storage = []\<rparr>) [] [] (\<lparr>map_data = Some \<lparr>size0 = 1, size1 = 2, storage = [25, 46]\<rparr>, frames = ([] :: unit option list), numUnits = [], keyframe = 0\<rparr>) = Inr (\<lparr>size0 = 1, size1 = 2, storage = [1, 0]\<rparr>, \<lparr>size0 = 1, size1 = 2, storage = [6, 3]\<rparr>, \<lparr>size0 = 1, size1 = 2, storage = [0, 1]\<rparr>, [0], [1])"
    by code_simp
  have x: "(0 :: nat) < 1" and y: "(1 :: nat) < 2" and y0: "(0 :: nat) < 2" by simp_all
  note t1 = setMap_getMap_tile_roundtrip [OF s l g x y]
  note t0 = setMap_getMap_tile_roundtrip [OF s l g x y0]
  have c1: "THTensor_fastGet2d (\<lparr>size0 = 1, size1 = 2, storage = [1, 0]\<rparr>) 0 1 = 0" "THTensor_fastGet2d (\<lparr>size0 = 1, size1 = 2, storage = [0, 1]\<rparr>) 0 1 = 1"
    "THTensor_fastGet2d (\<lparr>size0 = 1, size1 = 2, storage = [6, 3]\<rparr>) 0 1 = 3" "(int 0, int 1) \<in> set (zip [0] [1 :: int])"
    using t1 by simp_all
  have c0: "THTensor_fastGet2d (\<lparr>size0 = 1, size1 = 2, storage = [1, 0]\<rparr>) 0 0 = 1" "THTensor_fastGet2d (\<lparr>size0 = 1, size1 = 2, storage = [0, 1]\<rparr>) 0 0 = 0"
    "THTensor_fastGet2d (\<lparr>size0 = 1, size1 = 2, storage = [6, 3]\<rparr>) 0 0 = 6 AND 7" "(int 0, int 0) \<notin> set (zip [0] [1 :: int])"
    using t0 by simp_all
  show ?thesis
    using s g c1 c0 by blast
qed

lemma product_upt_sorted:
  "sorted_wrt (\<lambda>p q. fst p < fst q \<or> (fst p = fst q \<and> snd p < snd q)) (List.product [0..<w] [0..<h :: nat])"
proof (induction w)
  case 0
  then show ?case by simp
next
  case (Suc w)
  have "List.product [0..<Suc w] [0..<h] = List.product [0..<w] [0..<h] @ map (Pair w) [0..<h]"
    by (induction "[0..<w]" arbitrary: w) (auto simp: product_concat_map)
  then show ?case using Suc
    by (auto simp: sorted_wrt_append sorted_wrt_map)
qed

text \<open>
  Claim C10. \<^verbatim>\<open>getMap\<close> clears the two start-location vectors first: whatever they held,
  they come back as the coordinates of the tiles whose start-location bit is set in the
  current map, in the order of the traversal (increasing \<open>x\<close>, then increasing \<open>y\<close>),
  and with equal lengths.
\<close>

theorem getMap_start_locations:
  assumes get: "getMap junk walkability ground_height buildability start_loc_x start_loc_y self =
                  Inr (wk, gh, bd, sx, sy)"
    and m: "map_data self = Some m"
  shows "zip sx sy = map (\<lambda>(x, y). (int x, int y))
                       (filter (is_start_tile m) (List.product [0..<size0 m] [0..<size1 m])) \<and>
         length sx = length sy \<and>
         sorted_wrt lex_less (zip sx sy) \<and>
         (\<forall>sx0 sy0. \<exists>wk' gh' bd'.
            getMap junk walkability ground_height buildability sx0 sy0 self = Inr (wk', gh', bd', sx, sy))"
proof -
  let ?ps = "List.product [0..<size0 m] [0..<size1 m]"
  note g = getMap_result(1,2) [OF get m]
  have z: "zip sx sy = map (\<lambda>(x, y). (int x, int y)) (filter (is_start_tile m) ?ps)"
    unfolding g by (simp add: zip_map_map zip_same_conv_map case_prod_beta)
  have l: "length sx = length sy" unfolding g by simp
  have "sorted_wrt (\<lambda>p q. fst p < fst q \<or> (fst p = fst q \<and> snd p < snd q)) (filter (is_start_tile m) ?ps)"
    using product_upt_sorted by (rule sorted_wrt_filter)
  then have s: "sorted_wrt lex_less (zip sx sy)"
    unfolding z by (simp add: sorted_wrt_map lex_less_def case_prod_beta)
  have i: "\<exists>wk' gh' bd'. getMap junk walkability ground_height buildability sx0 sy0 self = Inr (wk', gh', bd', sx, sy)"
    for sx0 sy0
    using get by (simp add: getMap_def m Let_def)
  show ?thesis using z l s i by blast
qed

theorem getMap_start_locations_witness:
  "getMap (\<lambda>_. 0) \<lparr>size0 = 0, size1 = 0, storage = []\<rparr> \<lparr>size0 = 0, size1 = 0, storage = []\<rparr>
     \<lparr>size0 = 0, size1 = 0, storage = []\<rparr> [7, 8] [9]
     \<lparr>map_data = Some \<lparr>size0 = 2, size1 = 2, storage = [46, 1, 3, 32]\<rparr>,
      frames = ([] :: unit option list), numUnits = [], keyframe = 0\<rparr>
   = Inr (\<lparr>size0 = 2, size1 = 2, storage = [0, 1, 1, 0]\<rparr>,
          \<lparr>size0 = 2, size1 = 2, storage = [3, 0, 0, 0]\<rparr>,
          \<lparr>size0 = 2, size1 = 2, storage = [1, 0, 1, 0]\<rparr>, [0, 1], [0, 1]) \<and>
   zip [0, 1] [0, 1 :: int] = map (\<lambda>(x, y). (int x, int y))
       (filter (is_start_tile \<lparr>size0 = 2, size1 = 2, storage = [46, 1, 3, 32]\<rparr>)
          (List.product [0..<2] [0..<2])) \<and>
   length [0, 1 :: int] = length [0, 1 :: int] \<and>
   sorted_wrt lex_less (zip [0, 1] [0, 1 :: int]) \<and>
   (\<forall>sx0 sy0. \<exists>wk' gh' bd'.
      getMap (\<lambda>_. 0) \<lparr>size0 = 0, size1 = 0, storage = []\<rparr> \<lparr>size0 = 0, size1 = 0, storage = []\<rparr>
        \<lparr>size0 = 0, size1 = 0, storage = []\<rparr> sx0 sy0
        \<lparr>map_data = Some \<lparr>size0 = 2, size1 = 2, storage = [46, 1, 3, 32]\<rparr>,
         frames = ([] :: unit option list), numUnits = [], keyframe = 0\<rparr>
      = Inr (wk', gh', bd', [0, 1], [0, 1]))"
proof -
  let ?m = "\<lparr>size0 = 2, size1 = 2, storage = [46, 1, 3, 32 :: byte]\<rparr>"
  let ?self = "\<lparr>map_data = Some ?m, frames = ([] :: unit option list), numUnits = [], keyframe = 0\<rparr>"
  let ?e = "\<lparr>size0 = 0, size1 = 0, storage = []\<rparr>"
  have get: "getMap (\<lambda>_. 0) ?e ?e ?e [7, 8] [9] ?self
     = Inr (\<lparr>size0 = 2, size1 = 2, storage = [0, 1, 1, 0]\<rparr>,
            \<lparr>size0 = 2, size1 = 2, storage = [3, 0, 0, 0]\<rparr>,
            \<lparr>size0 = 2, size1 = 2, storage = [1, 0, 1, 0]\<rparr>, [0, 1], [0, 1])"
    by code_simp
  have m: "map_data ?self = Some ?m" by simp
  have sz: "size0 ?m = 2" "size1 ?m = 2" by simp_all
  show ?thesis
    by (rule conjI [OF get getMap_start_locations [OF get m, unfolded sz]])
qed

section \<open>Properties of the stream codec\<close>

lemma role_at_0: "role_at kf 0 = Keyframe"
  by (simp add: role_at_def)

lemma role_diff_pos: "role_at kf i = DiffFrame \<Longrightarrow> 0 < i"
  by (cases i) (simp_all add: role_at_def)

lemma read_frames_loop_step:
  "read_frames_loop ops (i # is) (rp, ins) =
     (case role_at (keyframe rp) i of
        Keyframe \<Rightarrow> read_frames_loop ops is (read_full_at ops i (rp, ins))
      | DiffFrame \<Rightarrow>
          (case frames rp ! (i - 1) of
             None \<Rightarrow> Throws Undefined_behaviour (rp, snd (read_FrameDiff ops ins (new_FrameDiff ops)))
           | Some p \<Rightarrow> read_frames_loop ops is (read_diff_at ops i (rp, ins))))"
  by (auto simp: role_at_def effective_keyframe_def read_full_at_def read_diff_at_def
      split: prod.splits option.splits)

lemma read_at_frames:
  "length (frames (fst (read_at ops kf i st))) = length (frames (fst st))"
  "keyframe (fst (read_at ops kf i st)) = keyframe (fst st)"
  "j \<noteq> i \<Longrightarrow> frames (fst (read_at ops kf i st)) ! j = frames (fst st) ! j"
  "i < length (frames (fst st)) \<Longrightarrow> frames (fst (read_at ops kf i st)) ! i \<noteq> None"
  by (auto simp: read_at_def read_full_at_def read_diff_at_def split: role.splits prod.splits)

lemma read_frames_loop_inv:
  assumes "length (frames rp) = n" "i \<le> n" "\<forall>j<i. frames rp ! j \<noteq> None"
  shows "\<exists>rp' ins'. read_frames_loop ops [i..<n] (rp, ins) = Returns (rp', ins') \<and>
           (rp', ins') = fold (read_at ops (keyframe rp)) [i..<n] (rp, ins) \<and>
           length (frames rp') = n \<and> keyframe rp' = keyframe rp \<and> (\<forall>j<n. frames rp' ! j \<noteq> None)"
  using assms
proof (induction "n - i" arbitrary: i rp ins)
  case 0
  then show ?case by simp
next
  case (Suc k)
  then have lt: "i < n" by simp
  then have ixs: "[i..<n] = i # [Suc i..<n]" by (simp add: upt_conv_Cons)
  obtain rp1 ins1 where st1: "read_at ops (keyframe rp) i (rp, ins) = (rp1, ins1)" by fastforce
  have p1: "length (frames rp1) = n" "keyframe rp1 = keyframe rp"
    using read_at_frames(1,2) [of ops "keyframe rp" i "(rp, ins)"] st1 Suc.prems by simp_all
  have p2: "\<forall>j<Suc i. frames rp1 ! j \<noteq> None"
  proof (intro allI impI)
    fix j assume "j < Suc i"
    then consider "j = i" | "j < i" by linarith
    then show "frames rp1 ! j \<noteq> None"
    proof cases
      case 1
      then show ?thesis using read_at_frames(4) [of i "(rp, ins)" ops "keyframe rp"] st1 lt Suc.prems by simp
    next
      case 2
      then show ?thesis using read_at_frames(3) [of j i ops "keyframe rp" "(rp, ins)"] st1 Suc.prems by simp
    qed
  qed
  have step: "read_frames_loop ops (i # [Suc i..<n]) (rp, ins) = read_frames_loop ops [Suc i..<n] (rp1, ins1)"
  proof (cases "role_at (keyframe rp) i")
    case Keyframe
    then show ?thesis using st1 by (simp add: read_frames_loop_step read_at_def del: read_frames_loop.simps)
  next
    case DiffFrame
    then have "0 < i" by (rule role_diff_pos)
    then have "frames rp ! (i - 1) \<noteq> None" using Suc.prems(3) by simp
    then show ?thesis using st1 DiffFrame by (auto simp: read_frames_loop_step read_at_def simp del: read_frames_loop.simps)
  qed
  have k: "k = n - Suc i" using Suc.hyps(2) by simp
  have le: "Suc i \<le> n" using lt by simp
  from Suc.hyps(1) [OF k p1(1) le p2, of ins1]
  obtain rp' ins' where r: "read_frames_loop ops [Suc i..<n] (rp1, ins1) = Returns (rp', ins')"
    "(rp', ins') = fold (read_at ops (keyframe rp1)) [Suc i..<n] (rp1, ins1)"
    "length (frames rp') = n" "keyframe rp' = keyframe rp1" "\<forall>j<n. frames rp' ! j \<noteq> None"
    by blast
  have f: "fold (read_at ops (keyframe rp)) (i # [Suc i..<n]) (rp, ins) = (rp', ins')"
    using r(2) p1(2) st1 by simp
  show ?case
    unfolding ixs step f using r(1,3,5) r(4) p1(2) by simp
qed

lemma write_frames_emit:
  assumes "\<forall>i \<in> set js. i < length xs"
  shows "write_frames ops (effective_keyframe kf) (map Some xs) js out =
           Inr (out @ concat (map (emit_at ops kf xs) js))"
  using assms
proof (induction js arbitrary: out)
  case Nil
  then show ?case by simp
next
  case (Cons i js)
  then have i: "i < length xs" and js: "\<forall>i \<in> set js. i < length xs" by simp_all
  show ?case
  proof (cases "role_at kf i")
    case Keyframe
    then have "i mod effective_keyframe kf = 0" by (simp add: role_at_def split: if_splits)
    then show ?thesis using Cons.IH [OF js] i Keyframe by (simp add: emit_at_def)
  next
    case DiffFrame
    then have m: "i mod effective_keyframe kf \<noteq> 0" by (simp add: role_at_def split: if_splits)
    then have "i \<noteq> 0" by (cases i) simp_all
    then show ?thesis using Cons.IH [OF js] i DiffFrame m by (simp add: emit_at_def)
  qed
qed

lemma fold_append_concat:
  "fold (\<lambda>x out. out @ g x) xs out = out @ concat (map g xs)"
  by (induction xs arbitrary: out) simp_all

lemma write_Replayer_layout:
  assumes "map_data rp = Some m" "size1 m * size0 m \<le> length (storage m)" "frames rp = map Some xs"
  shows "write_Replayer ops rp =
           Inr (header_bytes (keyframe rp) (size0 m) (size1 m) @
                take (size1 m * size0 m) (storage m) @
                frames_bytes ops (keyframe rp) xs @
                units_bytes (numUnits rp))"
proof -
  have kf: "(if keyframe rp = 0 then 1 else keyframe rp) = effective_keyframe (keyframe rp)"
    by (simp add: effective_keyframe_def)
  have ix: "\<forall>i \<in> set [0..<length xs]. i < length xs" by simp
  show ?thesis
    using assms
    by (simp add: write_Replayer_def Let_def kf write_frames_emit [OF ix] fold_append_concat
        header_bytes_def frames_bytes_def units_bytes_def pair_bytes_def [abs_def] del: upt.simps)
qed

lemma length_resize: "length (resize n xs) = n"
  by (simp add: resize_def)

lemma read_frames_fold:
  "read_frames ops u rp ins =
     (let (n, ins1) = read_size_t ins (u_nFrames u) in
      if vector_max_size < n then Throws Length_error (rp, ins1)
      else Returns (fold (read_at ops (keyframe rp)) [0..<nat n]
                      (rp\<lparr>frames := resize (nat n) (frames rp)\<rparr>, ins1)))"
proof -
  obtain n ins1 where r: "read_size_t ins (u_nFrames u) = (n, ins1)" by fastforce
  let ?rp = "rp\<lparr>frames := resize (nat n) (frames rp)\<rparr>"
  have "length (frames ?rp) = nat n" by (simp add: length_resize)
  from read_frames_loop_inv [OF this, of 0 ops ins1]
  have "read_frames_loop ops [0..<nat n] (?rp, ins1) =
          Returns (fold (read_at ops (keyframe rp)) [0..<nat n] (?rp, ins1))"
    by auto
  then show ?thesis by (simp add: read_frames_def r)
qed

lemma fold_read_at_inv:
  assumes "length (frames (fst st)) = n" "set js \<subseteq> {..<n}"
  shows "length (frames (fst (fold (read_at ops kf) js st))) = n \<and>
         keyframe (fst (fold (read_at ops kf) js st)) = keyframe (fst st) \<and>
         (\<forall>j<n. j \<in> set js \<or> frames (fst st) ! j \<noteq> None \<longrightarrow>
              frames (fst (fold (read_at ops kf) js st)) ! j \<noteq> None)"
  using assms
proof (induction js arbitrary: st)
  case Nil
  then show ?case by simp
next
  case (Cons i js)
  let ?st = "read_at ops kf i st"
  have l: "length (frames (fst ?st)) = n" using Cons.prems read_at_frames(1) by metis
  have s: "set js \<subseteq> {..<n}" using Cons.prems by simp
  have i: "i < n" using Cons.prems by simp
  note ih = Cons.IH [OF l s]
  have k: "keyframe (fst ?st) = keyframe (fst st)" by (rule read_at_frames(2))
  have "frames (fst (fold (read_at ops kf) js ?st)) ! j \<noteq> None"
    if "j < n" "j \<in> set (i # js) \<or> frames (fst st) ! j \<noteq> None" for j
  proof (cases "j = i")
    case True
    then have "frames (fst ?st) ! j \<noteq> None"
      using read_at_frames(4) [of i st ops kf] i Cons.prems(1) by simp
    then show ?thesis using ih that(1) by blast
  next
    case False
    then have "frames (fst ?st) ! j = frames (fst st) ! j" by (rule read_at_frames(3))
    then show ?thesis using ih that False by auto
  qed
  then show ?case using ih k by simp
qed

text \<open>
  Claim C9. In the reader's frame loop position 0 has the keyframe role and is read as a
  full frame; a position with the diff role is at least 1; when the loop reaches a
  position, every slot before it holds a frame, so the predecessor read by
  \<^verbatim>\<open>frame_undiff\<close> is inside the vector and not null: the loop never runs into undefined
  behaviour, and on return every slot is populated.
\<close>

theorem read_frames_predecessor_populated:
  "(\<forall>st. read_frames ops u rp ins \<noteq> Throws Undefined_behaviour st) \<and>
   role_at (keyframe rp) 0 = Keyframe \<and>
   (\<forall>js st. read_frames_loop ops (0 # js) st = read_frames_loop ops js (read_full_at ops 0 st)) \<and>
   (\<forall>i. role_at (keyframe rp) i = DiffFrame \<longrightarrow> 1 \<le> i) \<and>
   (\<forall>n ins1 i j. read_size_t ins (u_nFrames u) = (n, ins1) \<longrightarrow> i \<le> nat n \<longrightarrow> j < i \<longrightarrow>
      frames (fst (fold (read_at ops (keyframe rp)) [0..<i]
                     (rp\<lparr>frames := resize (nat n) (frames rp)\<rparr>, ins1))) ! j \<noteq> None) \<and>
   (\<forall>rp' ins'. read_frames ops u rp ins = Returns (rp', ins') \<longrightarrow>
      (\<forall>j<length (frames rp'). frames rp' ! j \<noteq> None))"
proof (intro conjI allI impI)
  fix st
  show "read_frames ops u rp ins \<noteq> Throws Undefined_behaviour st"
    by (simp add: read_frames_fold split: prod.splits)
next
  show "role_at (keyframe rp) 0 = Keyframe" by (rule role_at_0)
next
  fix js and st :: "'a replayer \<times> istream"
  obtain r i where st: "st = (r, i)" by (cases st)
  show "read_frames_loop ops (0 # js) st = read_frames_loop ops js (read_full_at ops 0 st)"
    unfolding st by (simp add: read_frames_loop_step role_at_0 del: read_frames_loop.simps)
next
  fix i assume "role_at (keyframe rp) i = DiffFrame"
  then show "1 \<le> i" using role_diff_pos by fastforce
next
  fix n ins1 i j
  assume a: "read_size_t ins (u_nFrames u) = (n, ins1)" "i \<le> nat n" "j < i"
  let ?st = "(rp\<lparr>frames := resize (nat n) (frames rp)\<rparr>, ins1)"
  have l: "length (frames (fst ?st)) = nat n" by (simp add: length_resize)
  have s: "set [0..<i] \<subseteq> {..<nat n}" using a(2) by auto
  from fold_read_at_inv [OF l s, of ops "keyframe rp"] a(2,3)
  show "frames (fst (fold (read_at ops (keyframe rp)) [0..<i] ?st)) ! j \<noteq> None"
    by simp
next
  fix rp' ins' j
  assume r: "read_frames ops u rp ins = Returns (rp', ins')" and j: "j < length (frames rp')"
  obtain n ins1 where n: "read_size_t ins (u_nFrames u) = (n, ins1)" by fastforce
  let ?st = "(rp\<lparr>frames := resize (nat n) (frames rp)\<rparr>, ins1)"
  have l: "length (frames (fst ?st)) = nat n" by (simp add: length_resize)
  have s: "set [0..<nat n] \<subseteq> {..<nat n}" by auto
  have e: "(rp', ins') = fold (read_at ops (keyframe rp)) [0..<nat n] ?st"
    using r by (simp add: read_frames_fold n split: if_splits)
  from fold_read_at_inv [OF l s, of ops "keyframe rp"] e [symmetric] j
  show "frames rp' ! j \<noteq> None" by simp
qed

lemma read_frames_example:
  "read_frames trace_ops some_uninit
     \<lparr>map_data = None, frames = [], numUnits = [], keyframe = 3\<rparr>
     \<lparr>buf = [0x37, 0x41, 0x42, 0x43, 0x44, 0x45, 0x46, 0x47, 0x20], eofbit = False, failbit = False\<rparr>
   = Returns
       (\<lparr>map_data = None,
         frames = [Some (Full 65), Some (Undiff 66 (Full 65)), Some (Undiff 67 (Undiff 66 (Full 65))),
                   Some (Full 68), Some (Undiff 69 (Full 68)), Some (Undiff 70 (Undiff 69 (Full 68))),
                   Some (Full 71)],
         numUnits = [], keyframe = 3\<rparr>,
        \<lparr>buf = [0x20], eofbit = False, failbit = False\<rparr>)"
  by code_simp

theorem read_frames_predecessor_populated_witness:
  "read_frames trace_ops some_uninit
     \<lparr>map_data = None, frames = [], numUnits = [], keyframe = 3\<rparr>
     \<lparr>buf = [0x37, 0x41, 0x42, 0x43, 0x44, 0x45, 0x46, 0x47, 0x20], eofbit = False, failbit = False\<rparr>
   = Returns
       (\<lparr>map_data = None,
         frames = [Some (Full 65), Some (Undiff 66 (Full 65)), Some (Undiff 67 (Undiff 66 (Full 65))),
                   Some (Full 68), Some (Undiff 69 (Full 68)), Some (Undiff 70 (Undiff 69 (Full 68))),
                   Some (Full 71)],
         numUnits = [], keyframe = 3\<rparr>,
        \<lparr>buf = [0x20], eofbit = False, failbit = False\<rparr>) \<and>
   role_at 3 4 = DiffFrame \<and> (1 :: nat) \<le> 4 \<and>
   [Some (Full 65), Some (Undiff 66 (Full 65)), Some (Undiff 67 (Undiff 66 (Full 65))),
    Some (Full 68), Some (Undiff 69 (Full 68)), Some (Undiff 70 (Undiff 69 (Full 68))),
    Some (Full 71)] ! 3 \<noteq> None"
proof -
  let ?rp = "\<lparr>map_data = None, frames = ([] :: made option list), numUnits = [], keyframe = 3\<rparr>"
  let ?ins = "\<lparr>buf = [0x37, 0x41, 0x42, 0x43, 0x44, 0x45, 0x46, 0x47, 0x20], eofbit = False, failbit = False\<rparr>"
  note t = read_frames_predecessor_populated [of trace_ops some_uninit ?rp ?ins]
  have r: "role_at 3 4 = DiffFrame" by (simp add: role_at_def effective_keyframe_def)
  have "(1 :: nat) \<le> 4" using t r by simp
  moreover have "[Some (Full 65), Some (Undiff 66 (Full 65)), Some (Undiff 67 (Undiff 66 (Full 65))),
    Some (Full 68), Some (Undiff 69 (Full 68)), Some (Undiff 70 (Undiff 69 (Full 68))),
    Some (Full 71)] ! 3 \<noteq> None"
    using t read_frames_example by simp
  ultimately show ?thesis using read_frames_example r by blast
qed

lemma roles_3_7:
  "map (role_at 3) [0..<7] = [Keyframe, DiffFrame, DiffFrame, Keyframe, DiffFrame, DiffFrame, Keyframe]"
  by (simp add: role_at_def effective_keyframe_def upt_rec)

text \<open>
  Claim C4. Writer and reader give position \<open>i\<close> the keyframe role exactly when
  \<open>i mod effective_keyframe = 0\<close>, where the effective interval is 1 for the setting 0:
  the writer emits the full frame there and the delta against the immediate predecessor
  everywhere else, the reader reads a full frame there and rebuilds every other frame from
  a delta and its predecessor slot. With interval 3 and 7 frames the keyframes are at 0, 3
  and 6, and the frames at 1, 2, 4 and 5 come from the chain of deltas that starts at the
  nearest keyframe before them.
\<close>

theorem keyframe_positions:
  "(\<forall>m xs. map_data rp = Some m \<and> size1 m * size0 m \<le> length (storage m) \<and> frames rp = map Some xs \<longrightarrow>
      write_Replayer ops rp =
        Inr (header_bytes (keyframe rp) (size0 m) (size1 m) @ take (size1 m * size0 m) (storage m) @
             show_nat (length xs) @ [space] @
             concat (map (\<lambda>i. if i mod effective_keyframe (keyframe rp) = 0
                                then write_Frame ops (xs ! i) @ [space]
                                else write_FrameDiff ops (frame_diff ops (xs ! i) (xs ! (i - 1))) @ [space])
                       [0..<length xs]) @
             units_bytes (numUnits rp))) \<and>
   read_frames ops u rp ins =
     (let (n, ins1) = read_size_t ins (u_nFrames u) in
      if vector_max_size < n then Throws Length_error (rp, ins1)
      else Returns (fold (\<lambda>i st. if i mod effective_keyframe (keyframe rp) = 0
                                  then read_full_at ops i st else read_diff_at ops i st)
                      [0..<nat n] (rp\<lparr>frames := resize (nat n) (frames rp)\<rparr>, ins1))) \<and>
   effective_keyframe (keyframe rp) = (if keyframe rp = 0 then 1 else keyframe rp) \<and>
   map (role_at 3) [0..<7] = [Keyframe, DiffFrame, DiffFrame, Keyframe, DiffFrame, DiffFrame, Keyframe] \<and>
   read_frames trace_ops some_uninit
     \<lparr>map_data = None, frames = [], numUnits = [], keyframe = 3\<rparr>
     \<lparr>buf = [0x37, 0x41, 0x42, 0x43, 0x44, 0x45, 0x46, 0x47, 0x20], eofbit = False, failbit = False\<rparr>
   = Returns
       (\<lparr>map_data = None,
         frames = [Some (Full 65), Some (Undiff 66 (Full 65)), Some (Undiff 67 (Undiff 66 (Full 65))),
                   Some (Full 68), Some (Undiff 69 (Full 68)), Some (Undiff 70 (Undiff 69 (Full 68))),
                   Some (Full 71)],
         numUnits = [], keyframe = 3\<rparr>,
        \<lparr>buf = [0x20], eofbit = False, failbit = False\<rparr>)"
proof -
  have e: "emit_at ops (keyframe rp) xs =
      (\<lambda>i. if i mod effective_keyframe (keyframe rp) = 0
            then write_Frame ops (xs ! i) @ [space]
            else write_FrameDiff ops (frame_diff ops (xs ! i) (xs ! (i - 1))) @ [space])" for xs
    by (rule ext) (simp add: emit_at_def role_at_def)
  have r: "read_at ops (keyframe rp) =
      (\<lambda>i st. if i mod effective_keyframe (keyframe rp) = 0
               then read_full_at ops i st else read_diff_at ops i st)"
    by (intro ext) (simp add: read_at_def role_at_def)
  have w: "write_Replayer ops rp =
        Inr (header_bytes (keyframe rp) (size0 m) (size1 m) @ take (size1 m * size0 m) (storage m) @
             show_nat (length xs) @ [space] @
             concat (map (\<lambda>i. if i mod effective_keyframe (keyframe rp) = 0
                                then write_Frame ops (xs ! i) @ [space]
                                else write_FrameDiff ops (frame_diff ops (xs ! i) (xs ! (i - 1))) @ [space])
                       [0..<length xs]) @
             units_bytes (numUnits rp))"
    if "map_data rp = Some m \<and> size1 m * size0 m \<le> length (storage m) \<and> frames rp = map Some xs" for m xs
    using that write_Replayer_layout [of rp m xs ops] by (simp add: frames_bytes_def e)
  show ?thesis
    using w read_frames_fold [of ops u rp ins, unfolded r] roles_3_7 read_frames_example
    by (simp add: effective_keyframe_def)
qed

lemma unat_digit_char: "d < 10 \<Longrightarrow> unat (digit_char d) = 48 + d"
proof -
  assume "d < 10"
  then have "48 + d < 2 ^ LENGTH(8)" by simp
  then have "unat (word_of_nat (48 + d) :: byte) = 48 + d" by (rule of_nat_inverse [OF refl])
  then show ?thesis by (simp only: digit_char_def)
qed

lemma uint_digit_char: "d < 10 \<Longrightarrow> uint (digit_char d) = 48 + int d"
  using unat_digit_char [of d] by (simp add: uint_nat del: of_nat_add)

lemma isdigit_iff: "isdigit c \<longleftrightarrow> 48 \<le> unat c \<and> unat c \<le> 57"
  by (simp add: isdigit_def word_le_nat_alt)

lemma isspace_iff: "isspace c \<longleftrightarrow> unat c = 32 \<or> (9 \<le> unat c \<and> unat c \<le> 13)"
  by (simp add: isspace_def word_le_nat_alt word_unat_eq_iff)

lemma digit_char_props:
  assumes "d < 10"
  shows "isdigit (digit_char d)" "\<not> isspace (digit_char d)" "digit_char d \<noteq> minus_char"
    "digit_char d \<noteq> plus_char" "digit_val (digit_char d) = int d"
  using assms unat_digit_char [OF assms] uint_digit_char [OF assms]
  by (auto simp: isdigit_iff isspace_iff minus_char_def plus_char_def digit_val_def word_unat_eq_iff)

lemma sign_char_props:
  "\<not> isdigit minus_char" "\<not> isspace minus_char" "\<not> isdigit space" "isspace space"
  "minus_char \<noteq> plus_char"
  by (simp_all add: isdigit_iff isspace_iff minus_char_def plus_char_def space_def)

lemma show_nat_digits: "\<forall>c \<in> set (show_nat n). isdigit c"
proof (induction n rule: show_nat.induct)
  case (1 n)
  show ?case
  proof (cases "n < 10")
    case True
    then show ?thesis by (subst show_nat.simps) (simp add: digit_char_props)
  next
    case False
    then show ?thesis using 1 by (subst show_nat.simps) (simp add: digit_char_props)
  qed
qed

lemma show_nat_nonempty: "show_nat n \<noteq> []"
  by (subst show_nat.simps) simp

lemma digits_value_snoc: "digits_value (ds @ [c]) = digits_value ds * 10 + digit_val c"
  by (simp add: digits_value_def)

lemma digits_value_show_nat: "digits_value (show_nat n) = int n"
proof (induction n rule: show_nat.induct)
  case (1 n)
  show ?case
  proof (cases "n < 10")
    case True
    then show ?thesis by (subst show_nat.simps) (simp add: digits_value_def digit_char_props)
  next
    case False
    then have "digits_value (show_nat n) = int (n div 10) * 10 + int (n mod 10)"
      using 1 by (subst show_nat.simps) (simp add: digits_value_snoc digit_char_props)
    also have "\<dots> = int n" by presburger
    finally show ?thesis .
  qed
qed

lemma hd_show_nat: "isdigit (hd (show_nat n))"
  using show_nat_digits [of n] show_nat_nonempty [of n] by (cases "show_nat n") auto

lemma takeWhile_show_nat:
  assumes "rest = [] \<or> \<not> isdigit (hd rest)"
  shows "takeWhile isdigit (show_nat n @ rest) = show_nat n"
    "dropWhile isdigit (show_nat n @ rest) = rest"
  using assms show_nat_digits [of n]
  by (cases rest; simp add: takeWhile_append2 dropWhile_append2)+

lemma show_int_nonneg: "0 \<le> v \<Longrightarrow> show_int v = show_nat (nat v)"
  by (simp add: show_int_def)

lemma show_int_of_nat: "show_int (int n) = show_nat n"
  by (simp add: show_int_def)

lemma dropWhile_isspace_show_nat:
  assumes "\<forall>c \<in> set ws. isspace c"
  shows "dropWhile isspace (ws @ show_nat n @ rest) = show_nat n @ rest"
proof -
  obtain d ds where s: "show_nat n = d # ds" using show_nat_nonempty [of n] by (cases "show_nat n") auto
  then have "isdigit d" using show_nat_digits [of n] by simp
  then have "\<not> isspace d" by (auto simp: isdigit_iff isspace_iff)
  then show ?thesis using assms by (simp add: s dropWhile_append2)
qed

lemma show_nat_hd_not_sign:
  "hd (show_nat n @ rest) \<noteq> minus_char" "hd (show_nat n @ rest) \<noteq> plus_char"
proof -
  obtain d ds where s: "show_nat n = d # ds" using show_nat_nonempty [of n] by (cases "show_nat n") auto
  then have "isdigit d" using show_nat_digits [of n] by simp
  then show "hd (show_nat n @ rest) \<noteq> minus_char" "hd (show_nat n @ rest) \<noteq> plus_char"
    by (auto simp: s isdigit_iff minus_char_def plus_char_def)
qed

lemma nat_less_pow_int: "n < 2 ^ k \<Longrightarrow> \<not> (2 ^ k - 1 < int n)"
proof -
  assume "n < 2 ^ k"
  then have "int n < int (2 ^ k)" by (simp only: of_nat_less_iff)
  also have "int (2 ^ k) = 2 ^ k" by (simp only: of_nat_power of_nat_numeral)
  finally show ?thesis by linarith
qed

lemma extract_show_nat:
  assumes ws: "\<forall>c \<in> set ws. isspace c" and c: "\<not> isdigit c"
    and r: "int n \<le> (if is_signed then 2 ^ (bits - 1) - 1 else 2 ^ bits - 1)"
  shows "extract_int is_signed bits \<lparr>buf = ws @ show_nat n @ c # rest, eofbit = False, failbit = False\<rparr> old
           = (int n, \<lparr>buf = c # rest, eofbit = False, failbit = False\<rparr>)"
proof -
  have s: "sentry False \<lparr>buf = ws @ show_nat n @ c # rest, eofbit = False, failbit = False\<rparr>
             = (True, \<lparr>buf = show_nat n @ c # rest, eofbit = False, failbit = False\<rparr>)"
    using show_nat_nonempty [of n]
    by (simp add: sentry_def good_def dropWhile_isspace_show_nat [OF ws])
  have t: "takeWhile isdigit (show_nat n @ c # rest) = show_nat n"
    "dropWhile isdigit (show_nat n @ c # rest) = c # rest"
    using takeWhile_show_nat [of "c # rest" n] c by simp_all
  show ?thesis
    using r show_nat_nonempty [of n] show_nat_hd_not_sign [of n "c # rest"]
    by (auto simp: extract_int_def s t Let_def digits_value_show_nat nat_less_pow_int split: if_splits)
qed

lemma extract_show_int:
  assumes ws: "\<forall>c \<in> set ws. isspace c" and c: "\<not> isdigit c"
    and r: "- (2 ^ (bits - 1)) \<le> v" "v \<le> 2 ^ (bits - 1) - 1"
  shows "extract_int True bits \<lparr>buf = ws @ show_int v @ c # rest, eofbit = False, failbit = False\<rparr> old
           = (v, \<lparr>buf = c # rest, eofbit = False, failbit = False\<rparr>)"
proof (cases "v < 0")
  case False
  then have "show_int v = show_nat (nat v)" by (simp add: show_int_def)
  then show ?thesis
    using extract_show_nat [OF ws c, of "nat v" True bits rest old] r False by simp
next
  case True
  let ?n = "nat (- v)"
  have sh: "show_int v = minus_char # show_nat ?n" using True by (simp add: show_int_def)
  have s: "sentry False \<lparr>buf = ws @ show_int v @ c # rest, eofbit = False, failbit = False\<rparr>
             = (True, \<lparr>buf = minus_char # show_nat ?n @ c # rest, eofbit = False, failbit = False\<rparr>)"
    using ws by (simp add: sentry_def good_def sh dropWhile_append2 sign_char_props)
  have t: "takeWhile isdigit (show_nat ?n @ c # rest) = show_nat ?n"
    "dropWhile isdigit (show_nat ?n @ c # rest) = c # rest"
    using takeWhile_show_nat [of "c # rest" ?n] c by simp_all
  have m: "int ?n = - v" using True by simp
  show ?thesis
    using r True show_nat_nonempty [of ?n]
    by (auto simp: extract_int_def s t Let_def digits_value_show_nat m split: if_splits)
qed

lemma read_int32_show:
  assumes "\<forall>c \<in> set ws. isspace c" "\<not> isdigit c" "- (2 ^ 31) \<le> v" "v < 2 ^ 31"
  shows "read_int32 \<lparr>buf = ws @ show_int v @ c # rest, eofbit = False, failbit = False\<rparr> old
           = (v, \<lparr>buf = c # rest, eofbit = False, failbit = False\<rparr>)"
  unfolding read_int32_def using assms by (intro extract_show_int) simp_all

lemma read_uint32_show:
  assumes "\<forall>c \<in> set ws. isspace c" "\<not> isdigit c" "int n < 2 ^ 32"
  shows "read_uint32 \<lparr>buf = ws @ show_nat n @ c # rest, eofbit = False, failbit = False\<rparr> old
           = (int n, \<lparr>buf = c # rest, eofbit = False, failbit = False\<rparr>)"
  unfolding read_uint32_def using assms by (intro extract_show_nat) simp_all

lemma read_size_t_show:
  assumes "\<forall>c \<in> set ws. isspace c" "\<not> isdigit c" "int n < 2 ^ 64"
  shows "read_size_t \<lparr>buf = ws @ show_nat n @ c # rest, eofbit = False, failbit = False\<rparr> old
           = (int n, \<lparr>buf = c # rest, eofbit = False, failbit = False\<rparr>)"
  unfolding read_size_t_def using assms by (intro extract_show_nat) simp_all

lemmas read_int32_show0 = read_int32_show [where ws = "[]", simplified]
lemmas read_int32_show1 = read_int32_show [where ws = "[space]", simplified sign_char_props, simplified]
lemmas read_uint32_show1 = read_uint32_show [where ws = "[space]", simplified sign_char_props, simplified]
lemmas read_size_t_show0 = read_size_t_show [where ws = "[]", simplified]

lemma read_header_marked:
  assumes "int kf < 2 ^ 32" "- (2 ^ 31) \<le> w" "w < 2 ^ 31" "- (2 ^ 31) \<le> h" "h < 2 ^ 31" "\<not> isdigit c"
  shows "read_header u rp
           \<lparr>buf = show_int 0 @ [space] @ show_nat kf @ [space] @ show_int w @ [space] @ show_int h @ c # rest,
            eofbit = False, failbit = False\<rparr>
         = (rp\<lparr>keyframe := kf\<rparr>, w, h, \<lparr>buf = c # rest, eofbit = False, failbit = False\<rparr>)"
proof -
  have 1: "read_int32 \<lparr>buf = show_int 0 @ space # show_nat kf @ space # show_int w @ space # show_int h @ c # rest,
            eofbit = False, failbit = False\<rparr> (u_diffed u)
       = (0, \<lparr>buf = space # show_nat kf @ space # show_int w @ space # show_int h @ c # rest,
            eofbit = False, failbit = False\<rparr>)"
    by (rule read_int32_show0) (simp_all add: sign_char_props)
  have 2: "read_uint32 \<lparr>buf = space # show_nat kf @ space # show_int w @ space # show_int h @ c # rest,
            eofbit = False, failbit = False\<rparr> (int (keyframe rp))
       = (int kf, \<lparr>buf = space # show_int w @ space # show_int h @ c # rest,
            eofbit = False, failbit = False\<rparr>)"
    using assms(1) by (intro read_uint32_show1) (simp_all add: sign_char_props)
  have 3: "read_int32 \<lparr>buf = space # show_int w @ space # show_int h @ c # rest,
            eofbit = False, failbit = False\<rparr> (u_width u)
       = (w, \<lparr>buf = space # show_int h @ c # rest, eofbit = False, failbit = False\<rparr>)"
    using assms(2,3) by (intro read_int32_show1) (simp_all add: sign_char_props)
  have 4: "read_int32 \<lparr>buf = space # show_int h @ c # rest, eofbit = False, failbit = False\<rparr> (u_height u)
       = (h, \<lparr>buf = c # rest, eofbit = False, failbit = False\<rparr>)"
    using assms(4,5,6) by (intro read_int32_show1) (simp_all add: sign_char_props)
  show ?thesis
    by (simp add: read_header_def 1 2 3 4)
qed

lemma read_header_unmarked:
  assumes "d \<noteq> 0" "- (2 ^ 31) \<le> d" "d < 2 ^ 31" "- (2 ^ 31) \<le> h" "h < 2 ^ 31" "\<not> isdigit c"
  shows "read_header u rp
           \<lparr>buf = show_int d @ [space] @ show_int h @ c # rest, eofbit = False, failbit = False\<rparr>
         = (rp\<lparr>keyframe := 0\<rparr>, d, h, \<lparr>buf = c # rest, eofbit = False, failbit = False\<rparr>)"
proof -
  have 1: "read_int32 \<lparr>buf = show_int d @ space # show_int h @ c # rest,
            eofbit = False, failbit = False\<rparr> (u_diffed u)
       = (d, \<lparr>buf = space # show_int h @ c # rest, eofbit = False, failbit = False\<rparr>)"
    using assms(2,3) by (intro read_int32_show0) (simp_all add: sign_char_props)
  have 4: "read_int32 \<lparr>buf = space # show_int h @ c # rest, eofbit = False, failbit = False\<rparr> (u_height u)
       = (h, \<lparr>buf = c # rest, eofbit = False, failbit = False\<rparr>)"
    using assms(4,5,6) by (intro read_int32_show1) (simp_all add: sign_char_props)
  show ?thesis
    using assms(1) by (simp add: read_header_def 1 4)
qed

lemma read_header_bytes:
  assumes "int kf < 2 ^ 32" "0 < w" "int w < 2 ^ 31" "int h < 2 ^ 31"
  shows "read_header u rp
           \<lparr>buf = header_bytes kf w h @ rest, eofbit = False, failbit = False\<rparr>
         = (rp\<lparr>keyframe := kf\<rparr>, int w, int h, \<lparr>buf = space # rest, eofbit = False, failbit = False\<rparr>)"
proof (cases "kf = 0")
  case True
  then show ?thesis
    using read_header_unmarked [of "int w" "int h" space u rp rest] assms
    by (simp add: header_bytes_def sign_char_props)
next
  case False
  then show ?thesis
    using read_header_marked [of kf "int w" "int h" space u rp rest] assms
    by (simp add: header_bytes_def sign_char_props)
qed

lemma pair_bytes_Pair: "pair_bytes (k, v) = show_int k @ space # show_int v @ [space]"
  by (simp add: pair_bytes_def)

lemma read_units_loop_pairs:
  assumes "\<forall>(k, v) \<in> set ps. - (2 ^ 31) \<le> k \<and> k < 2 ^ 31 \<and> - (2 ^ 31) \<le> v \<and> v < 2 ^ 31"
  shows "read_units_loop (length ps) key val rp
           \<lparr>buf = space # concat (map pair_bytes ps) @ rest, eofbit = False, failbit = False\<rparr>
         = (rp\<lparr>numUnits := fold (\<lambda>(k, v). AList.update k v) ps (numUnits rp)\<rparr>,
            \<lparr>buf = space # rest, eofbit = False, failbit = False\<rparr>)"
  using assms
proof (induction ps arbitrary: key val rp)
  case Nil
  then show ?case by simp
next
  case (Cons p ps)
  obtain k v where p: "p = (k, v)" by (cases p)
  have kv: "- (2 ^ 31) \<le> k" "k < 2 ^ 31" "- (2 ^ 31) \<le> v" "v < 2 ^ 31" using Cons.prems p by auto
  have rest: "\<forall>(k, v) \<in> set ps. - (2 ^ 31) \<le> k \<and> k < 2 ^ 31 \<and> - (2 ^ 31) \<le> v \<and> v < 2 ^ 31"
    using Cons.prems by simp
  let ?tail = "concat (map pair_bytes ps) @ rest"
  have 1: "read_int32 \<lparr>buf = space # show_int k @ space # show_int v @ space # ?tail,
             eofbit = False, failbit = False\<rparr> key
        = (k, \<lparr>buf = space # show_int v @ space # ?tail, eofbit = False, failbit = False\<rparr>)"
    using kv by (intro read_int32_show1) (simp_all add: sign_char_props)
  have 2: "read_int32 \<lparr>buf = space # show_int v @ space # ?tail, eofbit = False, failbit = False\<rparr> val
        = (v, \<lparr>buf = space # ?tail, eofbit = False, failbit = False\<rparr>)"
    using kv by (intro read_int32_show1) (simp_all add: sign_char_props)
  show ?case
    using Cons.IH [OF rest, of k v "rp\<lparr>numUnits := AList.update k v (numUnits rp)\<rparr>"]
    by (simp add: p pair_bytes_Pair 1 2)
qed

lemma units_bytes_alt: "units_bytes ps = show_nat (length ps) @ space # concat (map pair_bytes ps)"
  by (simp add: units_bytes_def)

lemma read_units_bytes:
  assumes "\<forall>(k, v) \<in> set ps. - (2 ^ 31) \<le> k \<and> k < 2 ^ 31 \<and> - (2 ^ 31) \<le> v \<and> v < 2 ^ 31"
    and "int (length ps) < 2 ^ 31" and "\<forall>c \<in> set ws. isspace c"
  shows "read_units u rp \<lparr>buf = ws @ units_bytes ps @ rest, eofbit = False, failbit = False\<rparr>
         = Returns (rp\<lparr>numUnits := fold (\<lambda>(k, v). AList.update k v) ps (numUnits rp)\<rparr>,
                    \<lparr>buf = space # rest, eofbit = False, failbit = False\<rparr>)"
proof -
  have "read_int32 \<lparr>buf = ws @ show_int (int (length ps)) @ space # concat (map pair_bytes ps) @ rest,
            eofbit = False, failbit = False\<rparr> (u_s u)
        = (int (length ps), \<lparr>buf = space # concat (map pair_bytes ps) @ rest, eofbit = False, failbit = False\<rparr>)"
    using assms(2,3) by (intro read_int32_show) (simp_all add: sign_char_props)
  then show ?thesis
    using read_units_loop_pairs [OF assms(1), of "u_key u" "u_val u" rp rest]
    by (simp add: read_units_def units_bytes_alt show_int_of_nat)
qed

lemma map_of_fold_update:
  "map_of (fold (\<lambda>(k, v). AList.update k v) ps al) = map_of al ++ map_of (rev ps)"
proof (induction ps arbitrary: al)
  case Nil
  then show ?case by simp
next
  case (Cons p ps)
  obtain k v where p: "p = (k, v)" by (cases p)
  show ?case
    by (auto simp: p Cons.IH update_conv' map_add_def fun_eq_iff split: option.splits)
qed

lemma read_header_fields:
  "read_header u rp ins = (rp1, w, h, ins1) \<Longrightarrow>
     map_data rp1 = map_data rp \<and> frames rp1 = frames rp \<and> numUnits rp1 = numUnits rp"
  by (auto simp: read_header_def Let_def split: prod.splits if_splits)

lemma read_at_fields:
  "numUnits (fst (read_at ops kf i st)) = numUnits (fst st)"
  "map_data (fst (read_at ops kf i st)) = map_data (fst st)"
  by (auto simp: read_at_def read_full_at_def read_diff_at_def split: role.splits prod.splits)

lemma fold_read_at_fields:
  "numUnits (fst (fold (read_at ops kf) js st)) = numUnits (fst st) \<and>
   map_data (fst (fold (read_at ops kf) js st)) = map_data (fst st)"
  by (induction js arbitrary: st) (simp_all add: read_at_fields)

lemma read_frames_fields:
  "read_frames ops u rp ins = Returns (rp1, ins1) \<Longrightarrow>
     numUnits rp1 = numUnits rp \<and> map_data rp1 = map_data rp"
proof -
  assume a: "read_frames ops u rp ins = Returns (rp1, ins1)"
  obtain n i1 where n: "read_size_t ins (u_nFrames u) = (n, i1)" by fastforce
  from a have "(rp1, ins1) = fold (read_at ops (keyframe rp)) [0..<nat n]
                  (rp\<lparr>frames := resize (nat n) (frames rp)\<rparr>, i1)"
    by (simp add: read_frames_fold n split: if_splits)
  then show ?thesis
    using fold_read_at_fields [of ops "keyframe rp" "[0..<nat n]" "(rp\<lparr>frames := resize (nat n) (frames rp)\<rparr>, i1)"]
    by (metis fst_conv replayer.select_convs(1,3) replayer.surjective replayer.update_convs(2))
qed

text \<open>
  Claim C6. When the width or the height read from the stream is not positive, the reader
  throws \<^verbatim>\<open>Corrupted replay: invalid map size\<close>; the replayer then has the map, the
  frames and the unit counts it had before the call.
\<close>

theorem invalid_map_size:
  assumes "read_header u rp ins = (rp1, width, height, ins1)" and "height \<le> 0 \<or> width \<le> 0"
  shows "read_Replayer ops u junk rp ins =
           Throws (Runtime_error ''Corrupted replay: invalid map size'') (rp1, ins1) \<and>
         map_data rp1 = map_data rp \<and> frames rp1 = frames rp \<and> numUnits rp1 = numUnits rp"
  using assms read_header_fields [OF assms(1)] by (simp add: read_Replayer_def)

lemma read_units_negative:
  "read_int32 ins (u_s u) = (s, ins1) \<Longrightarrow> s < 0 \<Longrightarrow>
     read_units u rp ins = Throws (Runtime_error ''Corrupted replay: s < 0'') (rp, ins1)"
  by (simp add: read_units_def)

lemma read_Replayer_negative_keeps:
  assumes t: "read_Replayer ops u junk rp ins0 = Throws (Runtime_error ''Corrupted replay: s < 0'') (rp', ins')"
  shows "numUnits rp' = numUnits rp"
proof -
  obtain rp1 w h i1 where hd: "read_header u rp ins0 = (rp1, w, h, i1)" by (metis prod_cases4)
  note f1 = read_header_fields [OF hd]
  let ?n = "nat (h * w)"
  let ?i2 = "ignore1 i1"
  obtain data i3 where rd: "istream_read ?i2 (THAlloc junk ?n) ?n = (data, i3)" by fastforce
  let ?rp2 = "setRawMap w h data rp1"
  have n2: "numUnits ?rp2 = numUnits rp" using f1 by (simp add: setRawMap_def)
  from t hd rd have ok: "\<not> (h \<le> 0 \<or> w \<le> 0)" "\<not> 2 ^ 31 \<le> h * w"
    by (auto simp: read_Replayer_def split: if_splits)
  show "numUnits rp' = numUnits rp"
  proof (cases "read_frames ops u ?rp2 i3")
    case (Returns st)
    obtain rp3 i4 where st: "st = (rp3, i4)" by (cases st)
    have n3: "numUnits rp3 = numUnits rp" using read_frames_fields [of ops u ?rp2 i3 rp3 i4] Returns st n2 by simp
    from t hd rd ok Returns st have "read_units u rp3 i4 = Throws (Runtime_error ''Corrupted replay: s < 0'') (rp', ins')"
      by (simp add: read_Replayer_def Let_def)
    then have "rp' = rp3" by (auto simp: read_units_def Let_def split: prod.splits if_splits)
    then show ?thesis using n3 by simp
  next
    case (Throws e st)
    with t hd rd ok have "e = Runtime_error ''Corrupted replay: s < 0''"
      by (simp add: read_Replayer_def Let_def)
    with Throws show ?thesis
      by (auto simp: read_frames_fold Let_def split: prod.splits if_splits)
  qed
qed

text \<open>
  Claim C7. A negative entry count makes the reader throw \<^verbatim>\<open>Corrupted replay: s < 0\<close>
  with the stream as the extraction of the count left it and the unit counts unchanged.
  Otherwise it reads as many key-value pairs as the count says, and of two entries with
  the same key the later one stays in the mapping.
\<close>

theorem unit_counts:
  "(\<forall>s ins1. read_int32 ins (u_s u) = (s, ins1) \<and> s < 0 \<longrightarrow>
      read_units u rp ins = Throws (Runtime_error ''Corrupted replay: s < 0'') (rp, ins1)) \<and>
   (\<forall>ins0 rp' ins'.
      read_Replayer ops u junk rp ins0 = Throws (Runtime_error ''Corrupted replay: s < 0'') (rp', ins') \<longrightarrow>
      numUnits rp' = numUnits rp) \<and>
   (\<forall>ps ws rest.
      (\<forall>(k, v) \<in> set ps. - (2 ^ 31) \<le> k \<and> k < 2 ^ 31 \<and> - (2 ^ 31) \<le> v \<and> v < 2 ^ 31) \<and>
      int (length ps) < 2 ^ 31 \<and> (\<forall>c \<in> set ws. isspace c) \<longrightarrow>
      read_units u rp \<lparr>buf = ws @ units_bytes ps @ rest, eofbit = False, failbit = False\<rparr>
        = Returns (rp\<lparr>numUnits := fold (\<lambda>(k, v). AList.update k v) ps (numUnits rp)\<rparr>,
                   \<lparr>buf = space # rest, eofbit = False, failbit = False\<rparr>)) \<and>
   (\<forall>ps al. map_of (fold (\<lambda>(k, v). AList.update k v) ps al) = map_of al ++ map_of (rev ps))"
  using read_units_negative [of ins u _ _ rp] read_Replayer_negative_keeps [of ops u junk rp]
    read_units_bytes [of _ _ u rp] map_of_fold_update
  by (intro conjI allI impI) blast+

text \<open>
  Claim C5. The stream written starts with the marker 0, the keyframe interval, the width
  and the height when the interval is not 0, and with the width and the height otherwise.
  The reader, on a first integer 0, reads the interval, the width and the height; on any
  other first integer it takes that as the width, reads the height and sets the interval
  to 0. On a header written for a positive width it gets back the three values.
\<close>

theorem header_protocol:
  "(\<forall>m xs. map_data rp = Some m \<and> size1 m * size0 m \<le> length (storage m) \<and> frames rp = map Some xs \<longrightarrow>
      (\<exists>body. write_Replayer ops rp =
         Inr ((if keyframe rp \<noteq> 0
               then show_int 0 @ [space] @ show_nat (keyframe rp) @ [space] @
                    show_int (int (size0 m)) @ [space] @ show_int (int (size1 m)) @ [space]
               else show_int (int (size0 m)) @ [space] @ show_int (int (size1 m)) @ [space]) @ body))) \<and>
   (\<forall>kf w h c rest.
      int kf < 2 ^ 32 \<and> - (2 ^ 31) \<le> w \<and> w < 2 ^ 31 \<and> - (2 ^ 31) \<le> h \<and> h < 2 ^ 31 \<and> \<not> isdigit c \<longrightarrow>
      read_header u rp0
        \<lparr>buf = show_int 0 @ [space] @ show_nat kf @ [space] @ show_int w @ [space] @ show_int h @ c # rest,
         eofbit = False, failbit = False\<rparr>
      = (rp0\<lparr>keyframe := kf\<rparr>, w, h, \<lparr>buf = c # rest, eofbit = False, failbit = False\<rparr>)) \<and>
   (\<forall>d h c rest.
      d \<noteq> 0 \<and> - (2 ^ 31) \<le> d \<and> d < 2 ^ 31 \<and> - (2 ^ 31) \<le> h \<and> h < 2 ^ 31 \<and> \<not> isdigit c \<longrightarrow>
      read_header u rp0
        \<lparr>buf = show_int d @ [space] @ show_int h @ c # rest, eofbit = False, failbit = False\<rparr>
      = (rp0\<lparr>keyframe := 0\<rparr>, d, h, \<lparr>buf = c # rest, eofbit = False, failbit = False\<rparr>)) \<and>
   (\<forall>ins d ins1. read_int32 ins (u_diffed u) = (d, ins1) \<longrightarrow>
      read_header u rp0 ins =
        (if d = 0 then
           let (kf, ins2) = read_uint32 ins1 (int (keyframe rp0));
               (w, ins3) = read_int32 ins2 (u_width u);
               (h, ins4) = read_int32 ins3 (u_height u)
           in (rp0\<lparr>keyframe := nat kf\<rparr>, w, h, ins4)
         else
           let (h, ins2) = read_int32 ins1 (u_height u)
           in (rp0\<lparr>keyframe := 0\<rparr>, d, h, ins2))) \<and>
   (\<forall>kf w h rest.
      int kf < 2 ^ 32 \<and> 0 < w \<and> int w < 2 ^ 31 \<and> int h < 2 ^ 31 \<longrightarrow>
      read_header u rp0 \<lparr>buf = header_bytes kf w h @ rest, eofbit = False, failbit = False\<rparr>
      = (rp0\<lparr>keyframe := kf\<rparr>, int w, int h, \<lparr>buf = space # rest, eofbit = False, failbit = False\<rparr>))"
proof (intro conjI allI impI)
  fix m xs
  assume a: "map_data rp = Some m \<and> size1 m * size0 m \<le> length (storage m) \<and> frames rp = map Some xs"
  then have "write_Replayer ops rp =
           Inr (header_bytes (keyframe rp) (size0 m) (size1 m) @
                take (size1 m * size0 m) (storage m) @
                frames_bytes ops (keyframe rp) xs @
                units_bytes (numUnits rp))"
    by (intro write_Replayer_layout) simp_all
  then show "\<exists>body. write_Replayer ops rp =
         Inr ((if keyframe rp \<noteq> 0
               then show_int 0 @ [space] @ show_nat (keyframe rp) @ [space] @
                    show_int (int (size0 m)) @ [space] @ show_int (int (size1 m)) @ [space]
               else show_int (int (size0 m)) @ [space] @ show_int (int (size1 m)) @ [space]) @ body)"
    by (auto simp: header_bytes_def)
next
  fix kf and w h :: int and c rest
  assume "int kf < 2 ^ 32 \<and> - (2 ^ 31) \<le> w \<and> w < 2 ^ 31 \<and> - (2 ^ 31) \<le> h \<and> h < 2 ^ 31 \<and> \<not> isdigit c"
  then show "read_header u rp0
        \<lparr>buf = show_int 0 @ [space] @ show_nat kf @ [space] @ show_int w @ [space] @ show_int h @ c # rest,
         eofbit = False, failbit = False\<rparr>
      = (rp0\<lparr>keyframe := kf\<rparr>, w, h, \<lparr>buf = c # rest, eofbit = False, failbit = False\<rparr>)"
    by (intro read_header_marked) simp_all
next
  fix d h :: int and c rest
  assume "d \<noteq> 0 \<and> - (2 ^ 31) \<le> d \<and> d < 2 ^ 31 \<and> - (2 ^ 31) \<le> h \<and> h < 2 ^ 31 \<and> \<not> isdigit c"
  then show "read_header u rp0
        \<lparr>buf = show_int d @ [space] @ show_int h @ c # rest, eofbit = False, failbit = False\<rparr>
      = (rp0\<lparr>keyframe := 0\<rparr>, d, h, \<lparr>buf = c # rest, eofbit = False, failbit = False\<rparr>)"
    by (intro read_header_unmarked) simp_all
next
  fix ins d ins1
  assume "read_int32 ins (u_diffed u) = (d, ins1)"
  then show "read_header u rp0 ins =
        (if d = 0 then
           let (kf, ins2) = read_uint32 ins1 (int (keyframe rp0));
               (w, ins3) = read_int32 ins2 (u_width u);
               (h, ins4) = read_int32 ins3 (u_height u)
           in (rp0\<lparr>keyframe := nat kf\<rparr>, w, h, ins4)
         else
           let (h, ins2) = read_int32 ins1 (u_height u)
           in (rp0\<lparr>keyframe := 0\<rparr>, d, h, ins2))"
    by (simp add: read_header_def)
next
  fix kf w h rest
  assume "int kf < 2 ^ 32 \<and> 0 < w \<and> int w < 2 ^ 31 \<and> int h < 2 ^ 31"
  then show "read_header u rp0 \<lparr>buf = header_bytes kf w h @ rest, eofbit = False, failbit = False\<rparr>
      = (rp0\<lparr>keyframe := kf\<rparr>, int w, int h, \<lparr>buf = space # rest, eofbit = False, failbit = False\<rparr>)"
    by (intro read_header_bytes) simp_all
qed

theorem invalid_map_size_witness:
  "read_header some_uninit \<lparr>map_data = None, frames = ([] :: int option list), numUnits = [], keyframe = 5\<rparr>
     \<lparr>buf = [0x33, 0x20, 0x2D, 0x31, 0x20], eofbit = False, failbit = False\<rparr>
   = (\<lparr>map_data = None, frames = [], numUnits = [], keyframe = 0\<rparr>, 3, - 1,
      \<lparr>buf = [0x20], eofbit = False, failbit = False\<rparr>) \<and>
   read_Replayer int_ops some_uninit (\<lambda>_. 0)
     \<lparr>map_data = None, frames = ([] :: int option list), numUnits = [], keyframe = 5\<rparr>
     \<lparr>buf = [0x33, 0x20, 0x2D, 0x31, 0x20], eofbit = False, failbit = False\<rparr>
   = Throws (Runtime_error ''Corrupted replay: invalid map size'')
       (\<lparr>map_data = None, frames = [], numUnits = [], keyframe = 0\<rparr>,
        \<lparr>buf = [0x20], eofbit = False, failbit = False\<rparr>)"
proof -
  have h: "read_header some_uninit \<lparr>map_data = None, frames = ([] :: int option list), numUnits = [], keyframe = 5\<rparr>
     \<lparr>buf = [0x33, 0x20, 0x2D, 0x31, 0x20], eofbit = False, failbit = False\<rparr>
   = (\<lparr>map_data = None, frames = [], numUnits = [], keyframe = 0\<rparr>, 3, - 1,
      \<lparr>buf = [0x20], eofbit = False, failbit = False\<rparr>)"
    by code_simp
  have d: "(- 1 :: int) \<le> 0 \<or> (3 :: int) \<le> 0" by simp
  from invalid_map_size [OF h d, of int_ops "\<lambda>_. 0"] h show ?thesis by blast
qed

theorem unit_counts_witness:
  "read_units some_uninit \<lparr>map_data = None, frames = ([] :: int option list), numUnits = [(4, 4)], keyframe = 0\<rparr>
     \<lparr>buf = [0x20, 0x2D, 0x31, 0x20, 0x35], eofbit = False, failbit = False\<rparr>
   = Throws (Runtime_error ''Corrupted replay: s < 0'')
       (\<lparr>map_data = None, frames = [], numUnits = [(4, 4)], keyframe = 0\<rparr>,
        \<lparr>buf = [0x20, 0x35], eofbit = False, failbit = False\<rparr>) \<and>
   read_units some_uninit \<lparr>map_data = None, frames = ([] :: int option list), numUnits = [(4, 4)], keyframe = 0\<rparr>
     \<lparr>buf = [space] @ units_bytes [(1, 2), (- 6, 9), (1, 3)] @ [0x41], eofbit = False, failbit = False\<rparr>
   = Returns
       (\<lparr>map_data = None, frames = [], numUnits = [(4, 4), (1, 3), (- 6, 9)], keyframe = 0\<rparr>,
        \<lparr>buf = [space, 0x41], eofbit = False, failbit = False\<rparr>) \<and>
   map_of (fold (\<lambda>(k, v). AList.update k v) ([(1, 2), (- 6, 9), (1, 3)] :: (int \<times> int) list) ([(4, 4)] :: (int \<times> int) list)) 1 = Some 3"
proof -
  let ?rp = "\<lparr>map_data = None, frames = ([] :: int option list), numUnits = [(4, 4)], keyframe = 0\<rparr>"
  let ?ins = "\<lparr>buf = [0x20, 0x2D, 0x31, 0x20, 0x35], eofbit = False, failbit = False\<rparr>"
  note t = unit_counts [of ?ins some_uninit ?rp int_ops "\<lambda>_. 0"]
  note t1 = t [THEN conjunct1, rule_format]
  note t3 = t [THEN conjunct2, THEN conjunct2, THEN conjunct1, rule_format]
  note t4 = t [THEN conjunct2, THEN conjunct2, THEN conjunct2, rule_format]
  have s: "read_int32 ?ins (u_s some_uninit) = (- 1, \<lparr>buf = [0x20, 0x35], eofbit = False, failbit = False\<rparr>)"
    by code_simp
  have 1: "read_units some_uninit ?rp ?ins = Throws (Runtime_error ''Corrupted replay: s < 0'')
       (?rp, \<lparr>buf = [0x20, 0x35], eofbit = False, failbit = False\<rparr>)"
    using t1 [of "- 1"] s by simp
  have p: "(\<forall>(k, v) \<in> set ([(1, 2), (- 6, 9), (1, 3)] :: (int \<times> int) list).
              - (2 ^ 31) \<le> k \<and> k < 2 ^ 31 \<and> - (2 ^ 31) \<le> v \<and> v < 2 ^ 31) \<and>
           int (length ([(1, 2), (- 6, 9), (1, 3)] :: (int \<times> int) list)) < 2 ^ 31 \<and> (\<forall>c \<in> set [space]. isspace c)"
    by (simp add: sign_char_props)
  have f: "fold (\<lambda>(k, v). AList.update k v) ([(1, 2), (- 6, 9), (1, 3)] :: (int \<times> int) list) ([(4, 4)] :: (int \<times> int) list)
             = [(4, 4), (1, 3), (- 6, 9)]"
    by simp
  from t3 [OF p] have "read_units some_uninit ?rp
       \<lparr>buf = [space] @ units_bytes [(1, 2), (- 6, 9), (1, 3)] @ [0x41], eofbit = False, failbit = False\<rparr>
     = Returns (?rp\<lparr>numUnits := fold (\<lambda>(k, v). AList.update k v) [(1, 2), (- 6, 9), (1, 3)] (numUnits ?rp)\<rparr>,
                \<lparr>buf = space # [0x41], eofbit = False, failbit = False\<rparr>)"
    .
  then have 2: "read_units some_uninit ?rp
       \<lparr>buf = [space] @ units_bytes [(1, 2), (- 6, 9), (1, 3)] @ [0x41], eofbit = False, failbit = False\<rparr>
     = Returns (\<lparr>map_data = None, frames = [], numUnits = [(4, 4), (1, 3), (- 6, 9)], keyframe = 0\<rparr>,
                \<lparr>buf = [space, 0x41], eofbit = False, failbit = False\<rparr>)"
    by (simp add: f)
  have 3: "map_of (fold (\<lambda>(k, v). AList.update k v) ([(1, 2), (- 6, 9), (1, 3)] :: (int \<times> int) list) ([(4, 4)] :: (int \<times> int) list)) 1 = Some 3"
    by (simp add: t4)
  show ?thesis using 1 2 3 by blast
qed

theorem header_protocol_witness:
  "(\<exists>body. write_Replayer int_ops
       \<lparr>map_data = Some \<lparr>size0 = 2, size1 = 1, storage = [0x61, 0x62]\<rparr>,
        frames = [Some 5, Some 7], numUnits = [], keyframe = 3\<rparr>
     = Inr ([0x30, 0x20, 0x33, 0x20, 0x32, 0x20, 0x31, 0x20] @ body)) \<and>
   read_header some_uninit \<lparr>map_data = None, frames = ([] :: int option list), numUnits = [], keyframe = 0\<rparr>
     \<lparr>buf = [0x30, 0x20, 0x33, 0x20, 0x32, 0x20, 0x31, 0x20, 0x61, 0x62], eofbit = False, failbit = False\<rparr>
   = (\<lparr>map_data = None, frames = [], numUnits = [], keyframe = 3\<rparr>, 2, 1,
      \<lparr>buf = [0x20, 0x61, 0x62], eofbit = False, failbit = False\<rparr>) \<and>
   read_header some_uninit \<lparr>map_data = None, frames = ([] :: int option list), numUnits = [], keyframe = 9\<rparr>
     \<lparr>buf = [0x32, 0x20, 0x31, 0x20, 0x61, 0x62], eofbit = False, failbit = False\<rparr>
   = (\<lparr>map_data = None, frames = [], numUnits = [], keyframe = 0\<rparr>, 2, 1,
      \<lparr>buf = [0x20, 0x61, 0x62], eofbit = False, failbit = False\<rparr>)"
proof -
  let ?m = "\<lparr>size0 = 2, size1 = 1, storage = [0x61, 0x62 :: byte]\<rparr>"
  let ?rp = "\<lparr>map_data = Some ?m, frames = [Some 5, Some (7 :: int)], numUnits = [], keyframe = 3\<rparr>"
  let ?r0 = "\<lparr>map_data = None, frames = ([] :: int option list), numUnits = [], keyframe = 0\<rparr>"
  let ?r9 = "\<lparr>map_data = None, frames = ([] :: int option list), numUnits = [], keyframe = 9\<rparr>"
  have e: "space = 0x20"
    "header_bytes 3 2 1 = [0x30, 0x20, 0x33, 0x20, 0x32, 0x20, 0x31, 0x20]"
    "header_bytes 0 2 1 = [0x32, 0x20, 0x31, 0x20]"
    by code_simp+
  have a: "map_data ?rp = Some ?m \<and> size1 ?m * size0 ?m \<le> length (storage ?m) \<and>
           frames ?rp = map Some [5, 7]"
    by simp
  have e1: "(if keyframe ?rp \<noteq> 0
             then show_int 0 @ [space] @ show_nat (keyframe ?rp) @ [space] @
                  show_int (int (size0 ?m)) @ [space] @ show_int (int (size1 ?m)) @ [space]
             else show_int (int (size0 ?m)) @ [space] @ show_int (int (size1 ?m)) @ [space])
            = [0x30, 0x20, 0x33, 0x20, 0x32, 0x20, 0x31, 0x20]"
    by code_simp
  from header_protocol [of ?rp int_ops some_uninit ?r0, THEN conjunct1, rule_format, OF a]
  obtain body where "write_Replayer int_ops ?rp =
         Inr ((if keyframe ?rp \<noteq> 0
               then show_int 0 @ [space] @ show_nat (keyframe ?rp) @ [space] @
                    show_int (int (size0 ?m)) @ [space] @ show_int (int (size1 ?m)) @ [space]
               else show_int (int (size0 ?m)) @ [space] @ show_int (int (size1 ?m)) @ [space]) @ body)"
    by blast
  then have "write_Replayer int_ops ?rp = Inr ([0x30, 0x20, 0x33, 0x20, 0x32, 0x20, 0x31, 0x20] @ body)"
    unfolding e1 .
  then have 1: "\<exists>body. write_Replayer int_ops ?rp = Inr ([0x30, 0x20, 0x33, 0x20, 0x32, 0x20, 0x31, 0x20] @ body)"
    by (rule exI)
  have b: "int 3 < 2 ^ 32 \<and> 0 < (2 :: nat) \<and> int 2 < 2 ^ 31 \<and> int 1 < 2 ^ 31" by simp
  from header_protocol [of ?rp int_ops some_uninit ?r0, THEN conjunct2, THEN conjunct2, THEN conjunct2,
      THEN conjunct2, rule_format, OF b, of "[0x61, 0x62]", unfolded e(2)]
  have 2: "read_header some_uninit ?r0
     \<lparr>buf = [0x30, 0x20, 0x33, 0x20, 0x32, 0x20, 0x31, 0x20, 0x61, 0x62], eofbit = False, failbit = False\<rparr>
   = (\<lparr>map_data = None, frames = [], numUnits = [], keyframe = 3\<rparr>, 2, 1,
      \<lparr>buf = [0x20, 0x61, 0x62], eofbit = False, failbit = False\<rparr>)"
    by (simp add: space_def)
  have c: "int 0 < 2 ^ 32 \<and> 0 < (2 :: nat) \<and> int 2 < 2 ^ 31 \<and> int 1 < 2 ^ 31" by simp
  from header_protocol [of ?rp int_ops some_uninit ?r9, THEN conjunct2, THEN conjunct2, THEN conjunct2,
      THEN conjunct2, rule_format, OF c, of "[0x61, 0x62]", unfolded e(3)]
  have 3: "read_header some_uninit ?r9
     \<lparr>buf = [0x32, 0x20, 0x31, 0x20, 0x61, 0x62], eofbit = False, failbit = False\<rparr>
   = (\<lparr>map_data = None, frames = [], numUnits = [], keyframe = 0\<rparr>, 2, 1,
      \<lparr>buf = [0x20, 0x61, 0x62], eofbit = False, failbit = False\<rparr>)"
    by (simp add: space_def)
  show ?thesis using 1 2 3 by blast
qed

theorem keyframe_positions_witness:
  "write_Replayer int_ops
     \<lparr>map_data = Some \<lparr>size0 = 1, size1 = 1, storage = [0x21]\<rparr>,
      frames = [Some 5, Some 7, Some 4], numUnits = [], keyframe = 2\<rparr>
   = Inr [0x30, 0x20, 0x32, 0x20, 0x31, 0x20, 0x31, 0x20, 0x21,
          0x33, 0x20, 0x35, 0x20, 0x32, 0x20, 0x34, 0x20, 0x30, 0x20]"
proof -
  let ?m = "\<lparr>size0 = 1, size1 = 1, storage = [0x21 :: byte]\<rparr>"
  let ?rp = "\<lparr>map_data = Some ?m, frames = [Some 5, Some 7, Some (4 :: int)], numUnits = [], keyframe = 2\<rparr>"
  have a: "map_data ?rp = Some ?m \<and> size1 ?m * size0 ?m \<le> length (storage ?m) \<and>
           frames ?rp = map Some [5, 7, 4]"
    by simp
  note w = keyframe_positions [of ?rp int_ops some_uninit, THEN conjunct1, rule_format, OF a]
  have e: "header_bytes (keyframe ?rp) (size0 ?m) (size1 ?m) @ take (size1 ?m * size0 ?m) (storage ?m) @
             show_nat (length [5, 7, 4 :: int]) @ [space] @
             concat (map (\<lambda>i. if i mod effective_keyframe (keyframe ?rp) = 0
                                then write_Frame int_ops ([5, 7, 4] ! i) @ [space]
                                else write_FrameDiff int_ops (frame_diff int_ops ([5, 7, 4] ! i) ([5, 7, 4] ! (i - 1))) @ [space])
                       [0..<length [5, 7, 4 :: int]]) @
             units_bytes (numUnits ?rp)
           = [0x30, 0x20, 0x32, 0x20, 0x31, 0x20, 0x31, 0x20, 0x21,
              0x33, 0x20, 0x35, 0x20, 0x32, 0x20, 0x34, 0x20, 0x30, 0x20]"
    by code_simp
  show ?thesis using w unfolding e .
qed

lemma concat_emit_from:
  "j < n \<Longrightarrow> concat (map f [j..<n]) = f j @ concat (map f [Suc j..<n])"
  by (simp add: upt_conv_Cons)

lemma slots_update:
  assumes "j < length xs" "length fs = length xs"
  shows "(map Some (take j xs) @ drop j fs)[j := Some (xs ! j)] = map Some (take (Suc j) xs) @ drop (Suc j) fs"
proof -
  have "drop j fs = fs ! j # drop (Suc j) fs" using assms by (simp add: Cons_nth_drop_Suc)
  then have "(map Some (take j xs) @ drop j fs)[j := Some (xs ! j)]
      = map Some (take j xs) @ Some (xs ! j) # drop (Suc j) fs"
    using assms by (simp add: list_update_append)
  also have "\<dots> = map Some (take (Suc j) xs) @ drop (Suc j) fs"
    using assms by (simp add: take_Suc_conv_app_nth)
  finally show ?thesis .
qed

lemma read_frames_fold_roundtrip:
  assumes len: "length fs = length xs" and kf: "keyframe rp = kf"
    and full: "\<forall>i < length xs. role_at kf i = Keyframe \<longrightarrow>
       (\<forall>rest. read_Frame ops \<lparr>buf = space # write_Frame ops (xs ! i) @ space # rest, eofbit = False, failbit = False\<rparr>
                  (new_Frame ops)
              = (xs ! i, \<lparr>buf = space # rest, eofbit = False, failbit = False\<rparr>))"
    and diff: "\<forall>i < length xs. role_at kf i = DiffFrame \<longrightarrow>
       (\<forall>rest. read_FrameDiff ops
                  \<lparr>buf = space # write_FrameDiff ops (frame_diff ops (xs ! i) (xs ! (i - 1))) @ space # rest,
                   eofbit = False, failbit = False\<rparr> (new_FrameDiff ops)
              = (frame_diff ops (xs ! i) (xs ! (i - 1)), \<lparr>buf = space # rest, eofbit = False, failbit = False\<rparr>))"
    and law: "\<forall>i < length xs. role_at kf i = DiffFrame \<longrightarrow>
       frame_undiff ops (frame_diff ops (xs ! i) (xs ! (i - 1))) (xs ! (i - 1)) = xs ! i"
    and j: "j \<le> length xs"
  shows "fold (read_at ops kf) [0..<j]
           (rp\<lparr>frames := fs\<rparr>,
            \<lparr>buf = space # concat (map (emit_at ops kf xs) [0..<length xs]) @ tail, eofbit = False, failbit = False\<rparr>)
         = (rp\<lparr>frames := map Some (take j xs) @ drop j fs\<rparr>,
            \<lparr>buf = space # concat (map (emit_at ops kf xs) [j..<length xs]) @ tail, eofbit = False, failbit = False\<rparr>)"
  using j
proof (induction j)
  case 0
  then show ?case by simp
next
  case (Suc j)
  then have jl: "j < length xs" by simp
  let ?rest = "concat (map (emit_at ops kf xs) [Suc j..<length xs]) @ tail"
  let ?st = "(rp\<lparr>frames := map Some (take j xs) @ drop j fs\<rparr>,
            \<lparr>buf = space # concat (map (emit_at ops kf xs) [j..<length xs]) @ tail, eofbit = False, failbit = False\<rparr>)"
  have step: "read_at ops kf j ?st
      = (rp\<lparr>frames := map Some (take (Suc j) xs) @ drop (Suc j) fs\<rparr>,
         \<lparr>buf = space # ?rest, eofbit = False, failbit = False\<rparr>)"
  proof (cases "role_at kf j")
    case Keyframe
    have b: "concat (map (emit_at ops kf xs) [j..<length xs]) @ tail
               = write_Frame ops (xs ! j) @ space # ?rest"
      using jl Keyframe by (simp add: concat_emit_from emit_at_def)
    have r: "read_Frame ops \<lparr>buf = space # write_Frame ops (xs ! j) @ space # ?rest, eofbit = False, failbit = False\<rparr>
                  (new_Frame ops)
              = (xs ! j, \<lparr>buf = space # ?rest, eofbit = False, failbit = False\<rparr>)"
      using full jl Keyframe by blast
    show ?thesis
      using Keyframe slots_update [OF jl len]
      by (simp add: read_at_def read_full_at_def b r)
  next
    case DiffFrame
    then have pos: "0 < j" by (rule role_diff_pos)
    let ?d = "frame_diff ops (xs ! j) (xs ! (j - Suc 0))"
    have b: "concat (map (emit_at ops kf xs) [j..<length xs]) @ tail
               = write_FrameDiff ops ?d @ space # ?rest"
      using jl DiffFrame by (simp add: concat_emit_from emit_at_def)
    have r: "read_FrameDiff ops \<lparr>buf = space # write_FrameDiff ops ?d @ space # ?rest, eofbit = False, failbit = False\<rparr>
                  (new_FrameDiff ops)
              = (?d, \<lparr>buf = space # ?rest, eofbit = False, failbit = False\<rparr>)"
      using diff [rule_format, OF jl DiffFrame, of ?rest] by (simp only: One_nat_def)
    have p: "(map Some (take j xs) @ drop j fs) ! (j - Suc 0) = Some (xs ! (j - Suc 0))"
      using pos jl by (simp add: nth_append)
    have u: "frame_undiff ops ?d (xs ! (j - Suc 0)) = xs ! j"
      using law [rule_format, OF jl DiffFrame] by (simp only: One_nat_def)
    show ?thesis
      using DiffFrame slots_update [OF jl len]
      by (simp add: read_at_def read_diff_at_def b r p u)
  qed
  have "fold (read_at ops kf) [0..<Suc j]
           (rp\<lparr>frames := fs\<rparr>,
            \<lparr>buf = space # concat (map (emit_at ops kf xs) [0..<length xs]) @ tail, eofbit = False, failbit = False\<rparr>)
        = read_at ops kf j ?st"
    using Suc.IH jl by simp
  then show ?case using step by simp
qed

lemma update_fresh: "k \<notin> fst ` set al \<Longrightarrow> AList.update k v al = al @ [(k, v)]"
  by (induction al) auto

lemma fold_update_distinct:
  "distinct (map fst ps) \<Longrightarrow> fst ` set ps \<inter> fst ` set al = {} \<Longrightarrow>
     fold (\<lambda>(k, v). AList.update k v) ps al = al @ ps"
proof (induction ps arbitrary: al)
  case Nil
  then show ?case by simp
next
  case (Cons p ps)
  obtain k v where p: "p = (k, v)" by (cases p)
  have k: "k \<notin> fst ` set al" using Cons.prems(2) p by auto
  have d: "distinct (map fst ps)" using Cons.prems(1) by simp
  have i: "fst ` set ps \<inter> fst ` set (al @ [(k, v)]) = {}"
    using Cons.prems p by auto
  show ?case
    using Cons.IH [OF d i] by (simp add: p update_fresh [OF k])
qed

lemma ignore1_space:
  "ignore1 \<lparr>buf = c # bs, eofbit = False, failbit = False\<rparr> = \<lparr>buf = bs, eofbit = False, failbit = False\<rparr>"
  by (simp add: ignore1_def sentry_def good_def)

lemma istream_read_exact:
  assumes "length data = n" "length bs = n"
  shows "istream_read \<lparr>buf = bs @ rest, eofbit = False, failbit = False\<rparr> data n
           = (bs, \<lparr>buf = rest, eofbit = False, failbit = False\<rparr>)"
  using assms by (simp add: istream_read_def sentry_def good_def)

lemma frames_bytes_alt:
  "frames_bytes ops kf xs @ tail =
     show_nat (length xs) @ space # concat (map (emit_at ops kf xs) [0..<length xs]) @ tail"
  by (simp add: frames_bytes_def)

lemma resize_length: "length (resize n fs) = n"
  by (simp add: resize_def)

lemma read_write_Replayer:
  assumes m: "map_data R = Some m" "0 < size0 m" "0 < size1 m"
      "length (storage m) = size0 m * size1 m" "int (size0 m) * int (size1 m) < 2 ^ 31"
    and kf: "int (keyframe R) < 2 ^ 32"
    and xs: "frames R = map Some xs" "int (length xs) \<le> vector_max_size"
    and nu: "distinct (map fst (numUnits R))" "int (length (numUnits R)) < 2 ^ 31"
      "\<forall>(k, v) \<in> set (numUnits R). - (2 ^ 31) \<le> k \<and> k < 2 ^ 31 \<and> - (2 ^ 31) \<le> v \<and> v < 2 ^ 31"
    and full: "\<forall>i < length xs. role_at (keyframe R) i = Keyframe \<longrightarrow>
       (\<forall>rest. read_Frame ops \<lparr>buf = space # write_Frame ops (xs ! i) @ space # rest, eofbit = False, failbit = False\<rparr>
                  (new_Frame ops)
              = (xs ! i, \<lparr>buf = space # rest, eofbit = False, failbit = False\<rparr>))"
    and diff: "\<forall>i < length xs. role_at (keyframe R) i = DiffFrame \<longrightarrow>
       (\<forall>rest. read_FrameDiff ops
                  \<lparr>buf = space # write_FrameDiff ops (frame_diff ops (xs ! i) (xs ! (i - 1))) @ space # rest,
                   eofbit = False, failbit = False\<rparr> (new_FrameDiff ops)
              = (frame_diff ops (xs ! i) (xs ! (i - 1)), \<lparr>buf = space # rest, eofbit = False, failbit = False\<rparr>))"
    and law: "\<forall>i < length xs. role_at (keyframe R) i = DiffFrame \<longrightarrow>
       frame_undiff ops (frame_diff ops (xs ! i) (xs ! (i - 1))) (xs ! (i - 1)) = xs ! i"
    and fresh: "numUnits rp0 = []"
  shows "\<exists>bytes. write_Replayer ops R = Inr bytes \<and>
           read_Replayer ops u junk rp0 \<lparr>buf = bytes, eofbit = False, failbit = False\<rparr>
             = Returns (R, \<lparr>buf = [space], eofbit = False, failbit = False\<rparr>)"
proof -
  let ?w = "size0 m" and ?h = "size1 m" and ?N = "length xs" and ?kf = "keyframe R"
  let ?U = "units_bytes (numUnits R)"
  let ?F = "frames_bytes ops ?kf xs"
  let ?bytes = "header_bytes ?kf ?w ?h @ take (?h * ?w) (storage m) @ ?F @ ?U"
  have tk: "take (?h * ?w) (storage m) = storage m" using m(4) by (simp add: mult.commute)
  have wr: "write_Replayer ops R = Inr ?bytes"
    using m(1,4) xs(1) by (intro write_Replayer_layout) (simp_all add: mult.commute)
  have wpos: "0 < int ?w" "0 < int ?h" using m(2,3) by simp_all
  have wh: "int ?w < 2 ^ 31" "int ?h < 2 ^ 31"
  proof -
    have "int ?w * 1 \<le> int ?w * int ?h" using wpos by (intro mult_left_mono) simp_all
    then show "int ?w < 2 ^ 31" using m(5) by simp
    have "1 * int ?h \<le> int ?w * int ?h" using wpos by (intro mult_right_mono) simp_all
    then show "int ?h < 2 ^ 31" using m(5) by simp
  qed
  let ?rp1 = "rp0\<lparr>keyframe := ?kf\<rparr>"
  have hd: "read_header u rp0 \<lparr>buf = ?bytes, eofbit = False, failbit = False\<rparr>
      = (?rp1, int ?w, int ?h, \<lparr>buf = space # storage m @ ?F @ ?U, eofbit = False, failbit = False\<rparr>)"
    using read_header_bytes [OF kf m(2) wh, of u rp0 "storage m @ ?F @ ?U"] by (simp add: tk)
  have n: "nat (int ?h * int ?w) = ?w * ?h" by (simp add: nat_mult_distrib mult.commute)
  have ig: "ignore1 \<lparr>buf = space # storage m @ ?F @ ?U, eofbit = False, failbit = False\<rparr>
      = \<lparr>buf = storage m @ ?F @ ?U, eofbit = False, failbit = False\<rparr>"
    by (rule ignore1_space)
  have rd: "istream_read \<lparr>buf = storage m @ ?F @ ?U, eofbit = False, failbit = False\<rparr>
              (THAlloc junk (?w * ?h)) (?w * ?h)
      = (storage m, \<lparr>buf = ?F @ ?U, eofbit = False, failbit = False\<rparr>)"
    using m(4) by (intro istream_read_exact) (simp_all add: THAlloc_def)
  let ?rp2 = "setRawMap (int ?w) (int ?h) (storage m) ?rp1"
  have rp2: "?rp2 = rp0\<lparr>keyframe := ?kf, map_data := Some m\<rparr>"
    by (simp add: setRawMap_def)
  have cnt: "read_size_t \<lparr>buf = show_nat ?N @ space # concat (map (emit_at ops ?kf xs) [0..<?N]) @ ?U,
               eofbit = False, failbit = False\<rparr> (u_nFrames u)
      = (int ?N, \<lparr>buf = space # concat (map (emit_at ops ?kf xs) [0..<?N]) @ ?U,
               eofbit = False, failbit = False\<rparr>)"
  proof -
    have "vector_max_size < 2 ^ 64" by (simp add: vector_max_size_def)
    then have "int ?N < 2 ^ 64" using xs(2) by linarith
    then show ?thesis
      using read_size_t_show [of "[]" space ?N "concat (map (emit_at ops ?kf xs) [0..<?N]) @ ?U" "u_nFrames u"]
      by (simp add: sign_char_props)
  qed
  let ?fs = "resize ?N (frames ?rp2)"
  have fold: "fold (read_at ops ?kf) [0..<?N]
           (?rp2\<lparr>frames := ?fs\<rparr>,
            \<lparr>buf = space # concat (map (emit_at ops ?kf xs) [0..<?N]) @ ?U, eofbit = False, failbit = False\<rparr>)
         = (?rp2\<lparr>frames := map Some (take ?N xs) @ drop ?N ?fs\<rparr>,
            \<lparr>buf = space # concat (map (emit_at ops ?kf xs) [?N..<?N]) @ ?U, eofbit = False, failbit = False\<rparr>)"
    by (rule read_frames_fold_roundtrip [OF resize_length _ full diff law]) (simp_all add: rp2)
  let ?rp3 = "?rp2\<lparr>frames := map Some xs\<rparr>"
  have fr: "read_frames ops u ?rp2 \<lparr>buf = ?F @ ?U, eofbit = False, failbit = False\<rparr>
      = Returns (?rp3, \<lparr>buf = space # ?U, eofbit = False, failbit = False\<rparr>)"
  proof -
    have k2: "keyframe ?rp2 = ?kf" by (simp add: rp2)
    show ?thesis
      unfolding read_frames_fold frames_bytes_alt cnt k2
      using xs(2) fold by (simp add: resize_length)
  qed
  have un: "read_units u ?rp3 \<lparr>buf = [space] @ ?U @ [], eofbit = False, failbit = False\<rparr>
      = Returns (?rp3\<lparr>numUnits := fold (\<lambda>(k, v). AList.update k v) (numUnits R) (numUnits ?rp3)\<rparr>,
                 \<lparr>buf = space # [], eofbit = False, failbit = False\<rparr>)"
    using nu(2,3) by (intro read_units_bytes) (simp_all add: sign_char_props)
  have nu3: "numUnits ?rp3 = []" using fresh by (simp add: rp2)
  have fu: "fold (\<lambda>(k, v). AList.update k v) (numUnits R) [] = numUnits R"
    using fold_update_distinct [OF nu(1), of "[]"] by simp
  have fin: "?rp3\<lparr>numUnits := numUnits R\<rparr> = R"
    using m(1) xs(1) by (simp add: rp2)
  have ok: "\<not> (int ?h \<le> 0 \<or> int ?w \<le> 0)" "\<not> 2 ^ 31 \<le> int ?h * int ?w"
    using wpos m(5) by (simp_all add: mult.commute)
  have "read_Replayer ops u junk rp0 \<lparr>buf = ?bytes, eofbit = False, failbit = False\<rparr>
      = Returns (R, \<lparr>buf = [space], eofbit = False, failbit = False\<rparr>)"
    unfolding read_Replayer_def hd
    using ok un by (simp add: n ig rd fr nu3 fu fin del: One_nat_def)
  then show ?thesis using wr by blast
qed

text \<open>
  Claim C1. Reading back what the writer wrote gives the replay that was written: the
  same map, the same frames, the same unit counts and the same keyframe interval, for
  every keyframe interval. The replay has a map of positive size whose tile count fits an
  \<^verbatim>\<open>int\<close>, no null frame and 32-bit unit counts; the frames' own stream operators
  read back what they write, and \<^verbatim>\<open>frame_undiff\<close> inverts \<^verbatim>\<open>frame_diff\<close> on the
  neighbouring frames of the replay.
\<close>

theorem replay_roundtrip:
  assumes m: "map_data R = Some m" "0 < size0 m" "0 < size1 m"
      "length (storage m) = size0 m * size1 m" "int (size0 m) * int (size1 m) < 2 ^ 31"
    and kf: "int (keyframe R) < 2 ^ 32"
    and xs: "frames R = map Some xs" "int (length xs) \<le> vector_max_size"
    and nu: "distinct (map fst (numUnits R))" "int (length (numUnits R)) < 2 ^ 31"
      "\<forall>(k, v) \<in> set (numUnits R). - (2 ^ 31) \<le> k \<and> k < 2 ^ 31 \<and> - (2 ^ 31) \<le> v \<and> v < 2 ^ 31"
    and full: "\<forall>i < length xs. role_at (keyframe R) i = Keyframe \<longrightarrow>
       (\<forall>rest. read_Frame ops \<lparr>buf = space # write_Frame ops (xs ! i) @ space # rest, eofbit = False, failbit = False\<rparr>
                  (new_Frame ops)
              = (xs ! i, \<lparr>buf = space # rest, eofbit = False, failbit = False\<rparr>))"
    and diff: "\<forall>i < length xs. role_at (keyframe R) i = DiffFrame \<longrightarrow>
       (\<forall>rest. read_FrameDiff ops
                  \<lparr>buf = space # write_FrameDiff ops (frame_diff ops (xs ! i) (xs ! (i - 1))) @ space # rest,
                   eofbit = False, failbit = False\<rparr> (new_FrameDiff ops)
              = (frame_diff ops (xs ! i) (xs ! (i - 1)), \<lparr>buf = space # rest, eofbit = False, failbit = False\<rparr>))"
    and law: "\<forall>i < length xs. role_at (keyframe R) i = DiffFrame \<longrightarrow>
       frame_undiff ops (frame_diff ops (xs ! i) (xs ! (i - 1))) (xs ! (i - 1)) = xs ! i"
    and fresh: "numUnits rp0 = []"
  shows "\<exists>bytes. write_Replayer ops R = Inr bytes \<and>
           read_Replayer ops u junk rp0 \<lparr>buf = bytes, eofbit = False, failbit = False\<rparr>
             = Returns (R, \<lparr>buf = [space], eofbit = False, failbit = False\<rparr>)"
  using assms by (rule read_write_Replayer)

lemma int_ops_read_Frame:
  assumes "- (2 ^ 31) \<le> v" "v < 2 ^ 31"
  shows "read_Frame int_ops \<lparr>buf = space # write_Frame int_ops v @ space # rest, eofbit = False, failbit = False\<rparr>
           (new_Frame int_ops)
         = (v, \<lparr>buf = space # rest, eofbit = False, failbit = False\<rparr>)"
    and "read_FrameDiff int_ops \<lparr>buf = space # write_FrameDiff int_ops v @ space # rest, eofbit = False, failbit = False\<rparr>
           (new_FrameDiff int_ops)
         = (v, \<lparr>buf = space # rest, eofbit = False, failbit = False\<rparr>)"
  using assms read_int32_show1 [of space v rest 0] by (simp_all add: int_ops_def sign_char_props)

theorem replay_roundtrip_witness:
  "write_Replayer int_ops
     \<lparr>map_data = Some \<lparr>size0 = 1, size1 = 1, storage = [0x21]\<rparr>,
      frames = [Some 5, Some 7, Some 4], numUnits = [(3, - 7)], keyframe = 2\<rparr>
   = Inr [0x30, 0x20, 0x32, 0x20, 0x31, 0x20, 0x31, 0x20, 0x21,
          0x33, 0x20, 0x35, 0x20, 0x32, 0x20, 0x34, 0x20,
          0x31, 0x20, 0x33, 0x20, 0x2D, 0x37, 0x20] \<and>
   read_Replayer int_ops some_uninit (\<lambda>_. 0)
     \<lparr>map_data = None, frames = [], numUnits = [], keyframe = 0\<rparr>
     \<lparr>buf = [0x30, 0x20, 0x32, 0x20, 0x31, 0x20, 0x31, 0x20, 0x21,
             0x33, 0x20, 0x35, 0x20, 0x32, 0x20, 0x34, 0x20,
             0x31, 0x20, 0x33, 0x20, 0x2D, 0x37, 0x20], eofbit = False, failbit = False\<rparr>
   = Returns
       (\<lparr>map_data = Some \<lparr>size0 = 1, size1 = 1, storage = [0x21]\<rparr>,
         frames = [Some 5, Some 7, Some 4], numUnits = [(3, - 7)], keyframe = 2\<rparr>,
        \<lparr>buf = [space], eofbit = False, failbit = False\<rparr>)"
proof -
  let ?m = "\<lparr>size0 = 1, size1 = 1, storage = [0x21 :: byte]\<rparr>"
  let ?xs = "[5, 7, 4] :: int list"
  let ?R = "\<lparr>map_data = Some ?m, frames = [Some 5, Some 7, Some (4 :: int)],
             numUnits = [(3, - 7)], keyframe = 2\<rparr>"
  let ?fresh = "\<lparr>map_data = None, frames = ([] :: int option list), numUnits = [], keyframe = 0\<rparr>"
  have i3: "i < length ?xs \<longleftrightarrow> i = 0 \<or> i = 1 \<or> i = 2" for i by (simp add: less_Suc_eq) arith
  have w: "write_Replayer int_ops ?R
     = Inr [0x30, 0x20, 0x32, 0x20, 0x31, 0x20, 0x31, 0x20, 0x21,
            0x33, 0x20, 0x35, 0x20, 0x32, 0x20, 0x34, 0x20,
            0x31, 0x20, 0x33, 0x20, 0x2D, 0x37, 0x20]"
    by code_simp
  have full: "\<forall>i < length ?xs. role_at (keyframe ?R) i = Keyframe \<longrightarrow>
       (\<forall>rest. read_Frame int_ops \<lparr>buf = space # write_Frame int_ops (?xs ! i) @ space # rest, eofbit = False, failbit = False\<rparr>
                  (new_Frame int_ops)
              = (?xs ! i, \<lparr>buf = space # rest, eofbit = False, failbit = False\<rparr>))"
  proof (intro allI impI)
    fix i rest assume i: "i < length ?xs"
    have "- (2 ^ 31) \<le> ?xs ! i \<and> ?xs ! i < 2 ^ 31" using i unfolding i3 by auto
    then show "read_Frame int_ops \<lparr>buf = space # write_Frame int_ops (?xs ! i) @ space # rest, eofbit = False, failbit = False\<rparr>
                  (new_Frame int_ops)
              = (?xs ! i, \<lparr>buf = space # rest, eofbit = False, failbit = False\<rparr>)"
      using int_ops_read_Frame(1) [of "?xs ! i" rest] by blast
  qed
  have diff: "\<forall>i < length ?xs. role_at (keyframe ?R) i = DiffFrame \<longrightarrow>
       (\<forall>rest. read_FrameDiff int_ops
                  \<lparr>buf = space # write_FrameDiff int_ops (frame_diff int_ops (?xs ! i) (?xs ! (i - 1))) @ space # rest,
                   eofbit = False, failbit = False\<rparr> (new_FrameDiff int_ops)
              = (frame_diff int_ops (?xs ! i) (?xs ! (i - 1)), \<lparr>buf = space # rest, eofbit = False, failbit = False\<rparr>))"
  proof (intro allI impI)
    fix i rest assume i: "i < length ?xs"
    let ?d = "frame_diff int_ops (?xs ! i) (?xs ! (i - 1))"
    have "- (2 ^ 31) \<le> ?d \<and> ?d < 2 ^ 31" using i unfolding i3 by (auto simp: int_ops_def)
    then show "read_FrameDiff int_ops
                  \<lparr>buf = space # write_FrameDiff int_ops ?d @ space # rest,
                   eofbit = False, failbit = False\<rparr> (new_FrameDiff int_ops)
              = (?d, \<lparr>buf = space # rest, eofbit = False, failbit = False\<rparr>)"
      using int_ops_read_Frame(2) [of ?d rest] by blast
  qed
  have law: "\<forall>i < length ?xs. role_at (keyframe ?R) i = DiffFrame \<longrightarrow>
       frame_undiff int_ops (frame_diff int_ops (?xs ! i) (?xs ! (i - 1))) (?xs ! (i - 1)) = ?xs ! i"
    by (simp add: int_ops_def)
  have "\<exists>bytes. write_Replayer int_ops ?R = Inr bytes \<and>
           read_Replayer int_ops some_uninit (\<lambda>_. 0) ?fresh \<lparr>buf = bytes, eofbit = False, failbit = False\<rparr>
             = Returns (?R, \<lparr>buf = [space], eofbit = False, failbit = False\<rparr>)"
    by (rule replay_roundtrip [where m = ?m and xs = ?xs, OF _ _ _ _ _ _ _ _ _ _ _ full diff law])
       (simp_all add: vector_max_size_def)
  then show ?thesis using w by auto
qed



lemma failed_same: "failbit ins \<Longrightarrow> ins\<lparr>failbit := True\<rparr> = ins"
  by simp





















lemma good_more_input [simp]: "good (more_input x ins) = good ins"
  by (simp add: good_def more_input_def)










































end
